theory Spec2Isabelle
  imports Main
begin

chapter \<open>The program\<close>

section \<open>Data model (game_logic.py)\<close>

text \<open>
  A cell of the board is Python's \<^verbatim>\<open>Optional[str]\<close>: \<^verbatim>\<open>None\<close>, \<^verbatim>\<open>'X'\<close> or \<^verbatim>\<open>'O'\<close>.
  The board is a Python list; the classes only ever build it as \<^verbatim>\<open>[None] * 9\<close> and
  update it by item assignment, so its length stays 9. The marks \<^verbatim>\<open>'X'\<close> and \<^verbatim>\<open>'O'\<close> are
  written \<open>MX\<close> and \<open>MO\<close>. Indices that the engine stores
  (histories) are in \<open>0..8\<close> and are kept as \<open>nat\<close>; a position handed to the engine by
  a caller is an arbitrary Python \<^verbatim>\<open>int\<close>.
\<close>

datatype mark = MX | MO

type_synonym cell = "mark option"
type_synonym board = "cell list"

definition WINNING_COMBINATIONS :: "(nat \<times> nat \<times> nat) list" where
  "WINNING_COMBINATIONS =
     [(0, 1, 2), (3, 4, 5), (6, 7, 8),
      (0, 3, 6), (1, 4, 7), (2, 5, 8),
      (0, 4, 8), (2, 4, 6)]"

text \<open>\<^verbatim>\<open>'O' if player == 'X' else 'X'\<close>\<close>

fun other :: "mark \<Rightarrow> mark" where
  "other MX = MO"
| "other MO = MX"

text \<open>\<^verbatim>\<open>any(all(board[i] == player for i in combo) for combo in WINNING_COMBINATIONS)\<close>\<close>

fun line_owned :: "board \<Rightarrow> mark \<Rightarrow> nat \<times> nat \<times> nat \<Rightarrow> bool" where
  "line_owned b p (i, j, k) = (b ! i = Some p \<and> b ! j = Some p \<and> b ! k = Some p)"

definition check_winner :: "board \<Rightarrow> mark \<Rightarrow> bool" where
  "check_winner b p = list_ex (line_owned b p) WINNING_COMBINATIONS"

text \<open>\<^verbatim>\<open>all(cell is not None for cell in board)\<close>\<close>

definition is_board_full :: "board \<Rightarrow> bool" where
  "is_board_full b = list_all (\<lambda>c. c \<noteq> None) b"

text \<open>
  \<^verbatim>\<open>[i for i in range(9) if board[i] is None]\<close>. On a list with fewer than 9 cells the
  comprehension raises \<^verbatim>\<open>IndexError\<close>: the AI entry points below return that error
  before anything else, and this helper skips the missing cells, so that it is total.
\<close>

datatype py_error = IndexError

definition empty_cells :: "board \<Rightarrow> nat list" where
  "empty_cells b = filter (\<lambda>i. i < length b \<and> b ! i = None) [0..<9]"

definition count_mark :: "board \<Rightarrow> mark \<Rightarrow> nat" where
  "count_mark b p = length (filter (\<lambda>c. c = Some p) b)"

subsection \<open>TicTacToeGame\<close>

record game =
  board :: board
  current_player :: mark
  game_over :: bool
  winner :: "mark option"

definition reset :: game where
  "reset = \<lparr> board = replicate 9 None, current_player = MX,
             game_over = False, winner = None \<rparr>"

definition is_valid_move :: "game \<Rightarrow> int \<Rightarrow> bool" where
  "is_valid_move g position =
     (\<not> game_over g \<and> 0 \<le> position \<and> position \<le> 8 \<and> board g ! nat position = None)"

text \<open>
  \<^verbatim>\<open>make_move\<close> mutates the object and returns a bool; the model returns the bool together
  with the object after the call.
\<close>

definition make_move :: "game \<Rightarrow> int \<Rightarrow> bool \<times> game" where
  "make_move g position =
     (if \<not> is_valid_move g position then (False, g)
      else
        let g1 = g\<lparr> board := (board g)[nat position := Some (current_player g)] \<rparr> in
        if check_winner (board g1) (current_player g1)
          then (True, g1\<lparr> game_over := True, winner := Some (current_player g1) \<rparr>)
        else if is_board_full (board g1)
          then (True, g1\<lparr> game_over := True, winner := None \<rparr>)
        else (True, g1\<lparr> current_player := other (current_player g1) \<rparr>))"

subsection \<open>NoDrawGame\<close>

text \<open>
  The subclass adds the two histories (deques of positions, oldest first) and overrides
  \<^verbatim>\<open>reset\<close>, \<^verbatim>\<open>is_valid_move\<close>, \<^verbatim>\<open>make_move\<close> and \<^verbatim>\<open>is_board_full\<close>.
\<close>

record nd_game = game +
  x_moves :: "nat list"
  o_moves :: "nat list"

definition MAX_MARKS :: nat where
  "MAX_MARKS = 3"

definition nd_reset :: nd_game where
  "nd_reset = \<lparr> board = replicate 9 None, current_player = MX,
                game_over = False, winner = None, x_moves = [], o_moves = [] \<rparr>"

text \<open>\<^verbatim>\<open>self.x_moves if player == 'X' else self.o_moves\<close>\<close>

definition get_player_moves :: "nd_game \<Rightarrow> mark \<Rightarrow> nat list" where
  "get_player_moves g p = (if p = MX then x_moves g else o_moves g)"

definition set_player_moves :: "nd_game \<Rightarrow> mark \<Rightarrow> nat list \<Rightarrow> nd_game" where
  "set_player_moves g p ms = (if p = MX then g\<lparr> x_moves := ms \<rparr> else g\<lparr> o_moves := ms \<rparr>)"

definition get_oldest_mark :: "nd_game \<Rightarrow> mark \<Rightarrow> nat option" where
  "get_oldest_mark g p =
     (let moves = get_player_moves g p
      in if length moves \<ge> MAX_MARKS then Some (moves ! 0) else None)"

definition nd_is_valid_move :: "nd_game \<Rightarrow> int \<Rightarrow> bool" where
  "nd_is_valid_move g position =
     (if game_over g \<or> \<not> (0 \<le> position \<and> position \<le> 8) then False
      else
        let c = board g ! nat position in
        if c = None then True
        else if c \<noteq> Some (current_player g) then False
        else
          let moves = get_player_moves g (current_player g) in
          if length moves \<ge> MAX_MARKS \<and> int (moves ! 0) = position then True
          else False)"

text \<open>\<^verbatim>\<open>NoDrawGame.is_board_full\<close> always answers \<^verbatim>\<open>False\<close>.\<close>

definition nd_is_board_full :: "nd_game \<Rightarrow> bool" where
  "nd_is_board_full g = False"

definition nd_make_move :: "nd_game \<Rightarrow> int \<Rightarrow> bool \<times> nd_game" where
  "nd_make_move g position =
     (if \<not> nd_is_valid_move g position then (False, g)
      else
        let player = current_player g;
            moves = get_player_moves g player;
            (b1, moves1) =
               (if length moves \<ge> MAX_MARKS
                then ((board g)[moves ! 0 := None], tl moves)
                else (board g, moves));
            b2 = b1[nat position := Some player];
            moves2 = moves1 @ [nat position];
            g2 = set_player_moves (g\<lparr> board := b2 \<rparr>) player moves2
        in if check_winner b2 player
           then (True, g2\<lparr> game_over := True, winner := Some player \<rparr>)
           else (True, g2\<lparr> current_player := other player \<rparr>))"

subsection \<open>Games played through the engine\<close>

text \<open>
  The states an engine object can be in: the state after \<^verbatim>\<open>reset()\<close>, and the state after
  a \<^verbatim>\<open>make_move\<close> call that was valid. \<open>play\<close> runs a scripted sequence of calls and
  \<open>all_valid\<close> says that every call of the script was accepted.
\<close>

inductive reachable :: "game \<Rightarrow> bool" where
  reach_reset: "reachable reset"
| reach_move: "reachable g \<Longrightarrow> is_valid_move g p \<Longrightarrow> reachable (snd (make_move g p))"

inductive nd_reachable :: "nd_game \<Rightarrow> bool" where
  nd_reach_reset: "nd_reachable nd_reset"
| nd_reach_move:
    "nd_reachable g \<Longrightarrow> nd_is_valid_move g p \<Longrightarrow> nd_reachable (snd (nd_make_move g p))"

fun play :: "game \<Rightarrow> int list \<Rightarrow> game" where
  "play g [] = g"
| "play g (p # ps) = play (snd (make_move g p)) ps"

fun all_valid :: "game \<Rightarrow> int list \<Rightarrow> bool" where
  "all_valid g [] = True"
| "all_valid g (p # ps) = (is_valid_move g p \<and> all_valid (snd (make_move g p)) ps)"

fun nd_play :: "nd_game \<Rightarrow> int list \<Rightarrow> nd_game" where
  "nd_play g [] = g"
| "nd_play g (p # ps) = nd_play (snd (nd_make_move g p)) ps"

fun nd_all_valid :: "nd_game \<Rightarrow> int list \<Rightarrow> bool" where
  "nd_all_valid g [] = True"
| "nd_all_valid g (p # ps) =
     (nd_is_valid_move g p \<and> nd_all_valid (snd (nd_make_move g p)) ps)"

section \<open>Medium AI (ai_medium.py)\<close>

text \<open>\<^verbatim>\<open>values.index(None)\<close>: the position of the first occurrence.\<close>

fun py_index :: "'a list \<Rightarrow> 'a \<Rightarrow> nat" where
  "py_index [] v = 0"
| "py_index (x # xs) v = (if x = v then 0 else Suc (py_index xs v))"

text \<open>
  \<^verbatim>\<open>random.choice(seq)\<close> on a non-empty sequence returns \<^verbatim>\<open>seq[i]\<close> for a random index
  \<open>i < len(seq)\<close>. The random source is the extra argument \<open>r\<close>; every index is the
  choice for some \<open>r\<close>.
\<close>

definition random_choice :: "nat \<Rightarrow> 'a list \<Rightarrow> 'a" where
  "random_choice r xs = xs ! (r mod length xs)"

text \<open>The loop of \<^verbatim>\<open>find_winning_move\<close> over the combinations, first match returned.\<close>

fun find_winning_move_in :: "board \<Rightarrow> mark \<Rightarrow> (nat \<times> nat \<times> nat) list \<Rightarrow> nat option" where
  "find_winning_move_in b player [] = None"
| "find_winning_move_in b player ((i, j, k) # combos) =
     (let values = [b ! i, b ! j, b ! k]
      in if count_list values (Some player) = 2 \<and> count_list values None = 1
         then Some ([i, j, k] ! py_index values None)
         else find_winning_move_in b player combos)"

definition find_winning_move :: "board \<Rightarrow> mark \<Rightarrow> nat option" where
  "find_winning_move b player = find_winning_move_in b player WINNING_COMBINATIONS"

definition get_medium_move :: "nat \<Rightarrow> board \<Rightarrow> py_error + nat option" where
  "get_medium_move r b =
     (if length b < 9 then Inl IndexError
      else
        let empty = empty_cells b in
        if empty = [] then Inr None
        else case find_winning_move b MO of
          Some win_move \<Rightarrow> Inr (Some win_move)
        | None \<Rightarrow>
           (case find_winning_move b MX of
              Some block_move \<Rightarrow> Inr (Some block_move)
            | None \<Rightarrow> Inr (Some (random_choice r empty))))"


text \<open>
  The candidate cells of a player, as \<^verbatim>\<open>find_winning_move_no_draw\<close>,
  \<^verbatim>\<open>get_medium_move_no_draw\<close> and \<^verbatim>\<open>_get_available_moves_no_draw\<close> each compute them:
  the empty cells in index order, then the player's oldest cell when the history holds 3
  entries or more and that cell is not in the list already.
\<close>

definition available_cells :: "board \<Rightarrow> nat list \<Rightarrow> nat list" where
  "available_cells b player_moves =
     (let available = empty_cells b in
      if length player_moves \<ge> 3 \<and> player_moves ! 0 \<notin> set available
      then available @ [player_moves ! 0] else available)"



section \<open>Hard AI, Standard game (ai_hard.py)\<close>

text \<open>
  Scores are Python ints, and the running best values start at \<^verbatim>\<open>float('-inf')\<close> or
  \<^verbatim>\<open>float('inf')\<close>. Python compares these exactly with ints, so a score is an integer
  or one of the two infinities, ordered as expected.
\<close>

datatype ext = MInf | Fin int | PInf

instantiation ext :: linorder
begin

fun less_eq_ext :: "ext \<Rightarrow> ext \<Rightarrow> bool" where
  "less_eq_ext MInf y = True"
| "less_eq_ext (Fin a) MInf = False"
| "less_eq_ext (Fin a) (Fin b) = (a \<le> b)"
| "less_eq_ext (Fin a) PInf = True"
| "less_eq_ext PInf PInf = True"
| "less_eq_ext PInf y = False"

definition less_ext :: "ext \<Rightarrow> ext \<Rightarrow> bool" where
  "less_ext x y = (x \<le> y \<and> \<not> y \<le> x)"

instance
proof
  fix x y z :: ext
  show "(x < y) = (x \<le> y \<and> \<not> y \<le> x)" by (simp add: less_ext_def)
  show "x \<le> x" by (cases x) simp_all
  show "x \<le> y \<Longrightarrow> y \<le> z \<Longrightarrow> x \<le> z" by (cases x; cases y; cases z) simp_all
  show "x \<le> y \<Longrightarrow> y \<le> x \<Longrightarrow> x = y" by (cases x; cases y) simp_all
  show "x \<le> y \<or> y \<le> x" by (cases x; cases y) auto
qed

end

text \<open>
  \<^verbatim>\<open>minimax\<close> places a mark on the shared list, recurses, and sets the cell back to
  \<^verbatim>\<open>None\<close> before the next candidate; every candidate is an Empty cell of the list as
  it was at entry, so each recursive call sees the entry board with one more mark, and
  that board is what the model passes. The two loops are folds over \<^verbatim>\<open>empty\<close> with the
  running \<^verbatim>\<open>best\<close>.
\<close>

lemma fill_cell_fewer_empty:
  assumes "pos \<in> set (empty_cells b)"
  shows "count_list (b[pos := Some m]) None < count_list b None"
proof -
  from assms have "pos < length b" "b ! pos = None" by (auto simp: empty_cells_def)
  then show ?thesis
  proof (induction b arbitrary: pos)
    case Nil
    then show ?case by simp
  next
    case (Cons c cs)
    then show ?case by (cases pos) auto
  qed
qed

function minimax :: "board \<Rightarrow> int \<Rightarrow> bool \<Rightarrow> ext" where
  "minimax b depth is_maximizing =
     (if check_winner b MO then Fin (10 - depth)
      else if check_winner b MX then Fin (depth - 10)
      else if is_board_full b then Fin 0
      else if is_maximizing
        then fold (\<lambda>pos best. max best (minimax (b[pos := Some MO]) (depth + 1) False))
               (empty_cells b) MInf
        else fold (\<lambda>pos best. min best (minimax (b[pos := Some MX]) (depth + 1) True))
               (empty_cells b) PInf)"
  by pat_completeness auto
termination
  by (relation "measure (\<lambda>(b, depth, is_maximizing). count_list b None)")
     (simp_all add: fill_cell_fewer_empty)

declare minimax.simps [simp del]

text \<open>
  \<^verbatim>\<open>get_hard_move\<close>: the first statement indexes \<^verbatim>\<open>board[0..8]\<close> and raises on a shorter
  list. The loop keeps the pair \<^verbatim>\<open>(best_score, best_move)\<close>, replaced when a candidate
  scores strictly higher.
\<close>

definition get_hard_move :: "board \<Rightarrow> py_error + nat option" where
  "get_hard_move b =
     (if length b < 9 then Inl IndexError
      else
        let empty = empty_cells b in
        if empty = [] then Inr None
        else
          Inr (Some (snd (fold
            (\<lambda>pos (best_score, best_move).
               let score = minimax (b[pos := Some MO]) 0 False
               in if score > best_score then (score, pos) else (best_score, best_move))
            empty (MInf, empty ! 0)))))"

text \<open>
  A playout of the Standard game against the Hard AI. The game starts from \<^verbatim>\<open>reset()\<close>
  with X to move, or, when the computer starts, from \<^verbatim>\<open>reset()\<close> followed by
  \<^verbatim>\<open>self.game.current_player = 'O'\<close> (gui.py, \<^verbatim>\<open>_start_game\<close> and \<^verbatim>\<open>_restart_game\<close>).
  X plays any valid move on its turns, and on O's turns of a running game the move is
  the index that \<^verbatim>\<open>get_hard_move\<close> returns for the current board
  (\<^verbatim>\<open>_execute_ai_move\<close>).
\<close>

inductive hard_playout :: "game \<Rightarrow> bool" where
  hp_reset: "hard_playout reset"
| hp_reset_o: "hard_playout (reset\<lparr> current_player := MO \<rparr>)"
| hp_x: "hard_playout g \<Longrightarrow> current_player g = MX \<Longrightarrow> is_valid_move g p \<Longrightarrow>
         hard_playout (snd (make_move g p))"
| hp_o: "hard_playout g \<Longrightarrow> current_player g = MO \<Longrightarrow> \<not> game_over g \<Longrightarrow>
         get_hard_move (board g) = Inr (Some q) \<Longrightarrow>
         hard_playout (snd (make_move g (int q)))"

section \<open>Hard AI, No-Draw game (ai_hard.py)\<close>

text \<open>
  The search works on the caller's list and on the module-level dictionary
  \<^verbatim>\<open>_tp_table\<close>. Both are state: every function below takes the board and the table and
  returns them as they are when the Python function returns. The histories are only read
  (each branch builds its own copy). An assignment to a cell beyond the end of the list
  raises \<^verbatim>\<open>IndexError\<close>, which nothing catches: every function below returns the error
  in place of its result. History entries are \<open>nat\<close>: Python's negative indices are
  outside the model.
\<close>

definition MOVE_PRIORITY :: "nat list" where
  "MOVE_PRIORITY = [4, 0, 2, 6, 8, 1, 3, 5, 7]"

text \<open>\<^verbatim>\<open>sum(1 for c in board if c is None)\<close> decides the depth.\<close>

definition get_dynamic_depth :: "board \<Rightarrow> int" where
  "get_dynamic_depth b =
     (let empty = count_list b None
      in if empty \<ge> 7 then 4 else if empty \<ge> 5 then 5 else 6)"

text \<open>\<^verbatim>\<open>sorted\<close> is stable, and so is \<open>sort_key\<close>.\<close>

definition order_moves :: "nat list \<Rightarrow> nat list" where
  "order_moves moves =
     sort_key (\<lambda>m. if m \<in> set MOVE_PRIORITY then py_index MOVE_PRIORITY m else 9) moves"

type_synonym tp_key = "board \<times> nat list \<times> nat list \<times> bool"
type_synonym tp_table = "tp_key \<rightharpoonup> ext"

definition board_key :: "board \<Rightarrow> nat list \<Rightarrow> nat list \<Rightarrow> bool \<Rightarrow> tp_key" where
  "board_key b x_ms o_ms is_maximizing = (b, x_ms, o_ms, is_maximizing)"

text \<open>The parameter \<^verbatim>\<open>player\<close> is not used by the Python function either.\<close>

definition get_available_moves_no_draw :: "board \<Rightarrow> mark \<Rightarrow> nat list \<Rightarrow> nat list" where
  "get_available_moves_no_draw b player player_moves =
     order_moves (available_cells b player_moves)"

text \<open>One round of the loop of \<^verbatim>\<open>_heuristic_score\<close>, on the pair of running scores.\<close>

fun heuristic_line :: "board \<Rightarrow> nat \<times> nat \<times> nat \<Rightarrow> int \<times> int \<Rightarrow> int \<times> int" where
  "heuristic_line b (i, j, k) (o_score, x_score) =
     (let vals = [b ! i, b ! j, b ! k];
          o_count = int (count_list vals (Some MO));
          x_count = int (count_list vals (Some MX))
      in (if x_count = 0 \<and> o_count > 0 then o_score + o_count else o_score,
          if o_count = 0 \<and> x_count > 0 then x_score + x_count else x_score))"

definition heuristic_score :: "board \<Rightarrow> int" where
  "heuristic_score b =
     (let (o_score, x_score) = fold (heuristic_line b) WINNING_COMBINATIONS (0, 0)
      in o_score - x_score)"

text \<open>
  The simulation that every loop body starts with: when the history holds \<^verbatim>\<open>MAX_MARKS\<close>
  entries or more, the oldest entry is popped from a copy of the history and its cell
  cleared (\<^verbatim>\<open>board[removed] = None\<close>); then the mark is placed (\<^verbatim>\<open>board[pos] = player\<close>) and
  the position appended to the copy. Either assignment raises when its index is not a
  cell of the list. The result is \<^verbatim>\<open>(removed, board, new_moves)\<close>. \<open>undo_mark\<close> is the end
  of the loop bodies that undo: \<^verbatim>\<open>board[pos] = None\<close>, then \<^verbatim>\<open>board[removed] = player\<close>
  when something was removed; both indices were assigned before.
\<close>

definition place_mark ::
    "board \<Rightarrow> mark \<Rightarrow> nat \<Rightarrow> nat list \<Rightarrow> py_error + (nat option \<times> board \<times> nat list)" where
  "place_mark b player pos player_moves =
     (if length player_moves \<ge> MAX_MARKS \<and> player_moves ! 0 \<ge> length b then Inl IndexError
      else
        let (removed, new_moves, b1) =
              (if length player_moves \<ge> MAX_MARKS
               then (Some (player_moves ! 0), tl player_moves, b[player_moves ! 0 := None])
               else (None, player_moves, b))
        in if pos \<ge> length b then Inl IndexError
           else Inr (removed, b1[pos := Some player], new_moves @ [pos]))"

definition undo_mark :: "board \<Rightarrow> mark \<Rightarrow> nat \<Rightarrow> nat option \<Rightarrow> board" where
  "undo_mark b player pos removed =
     (let b1 = b[pos := None]
      in case removed of None \<Rightarrow> b1 | Some r \<Rightarrow> b1[r := Some player])"

text \<open>
  \<^verbatim>\<open>minimax_no_draw\<close> with its two loops. A loop function takes the candidates still to
  try and the running \<^verbatim>\<open>alpha\<close>, \<^verbatim>\<open>beta\<close> and \<^verbatim>\<open>best\<close>, and returns \<^verbatim>\<open>best\<close> when the
  loop ends or breaks.
\<close>

function minimax_no_draw ::
    "board \<Rightarrow> tp_table \<Rightarrow> int \<Rightarrow> bool \<Rightarrow> nat list \<Rightarrow> nat list \<Rightarrow> int \<Rightarrow> ext \<Rightarrow> ext
       \<Rightarrow> py_error + (ext \<times> board \<times> tp_table)"
  and max_loop ::
    "nat list \<Rightarrow> board \<Rightarrow> tp_table \<Rightarrow> int \<Rightarrow> nat list \<Rightarrow> nat list \<Rightarrow> int \<Rightarrow> ext \<Rightarrow> ext \<Rightarrow> ext
       \<Rightarrow> py_error + (ext \<times> board \<times> tp_table)"
  and min_loop ::
    "nat list \<Rightarrow> board \<Rightarrow> tp_table \<Rightarrow> int \<Rightarrow> nat list \<Rightarrow> nat list \<Rightarrow> int \<Rightarrow> ext \<Rightarrow> ext \<Rightarrow> ext
       \<Rightarrow> py_error + (ext \<times> board \<times> tp_table)"
where
  "minimax_no_draw b tp depth is_maximizing x_ms o_ms max_depth alpha beta =
     (if check_winner b MO then Inr (Fin (10 - depth), b, tp)
      else if check_winner b MX then Inr (Fin (depth - 10), b, tp)
      else if depth \<ge> max_depth then Inr (Fin (heuristic_score b), b, tp)
      else
        let key = board_key b x_ms o_ms is_maximizing in
        case tp key of
          Some cached \<Rightarrow> Inr (cached, b, tp)
        | None \<Rightarrow>
            let player = (if is_maximizing then MO else MX);
                player_moves = (if is_maximizing then o_ms else x_ms);
                available = get_available_moves_no_draw b player player_moves
            in if available = [] then Inr (Fin (heuristic_score b), b, tp)
               else if is_maximizing then
                 (case max_loop available b tp depth x_ms o_ms max_depth alpha beta MInf of
                    Inl e \<Rightarrow> Inl e
                  | Inr (best, b', tp') \<Rightarrow> Inr (best, b', tp'(key \<mapsto> best)))
               else
                 (case min_loop available b tp depth x_ms o_ms max_depth alpha beta PInf of
                    Inl e \<Rightarrow> Inl e
                  | Inr (best, b', tp') \<Rightarrow> Inr (best, b', tp'(key \<mapsto> best))))"
| "max_loop [] b tp depth x_ms o_ms max_depth alpha beta best = Inr (best, b, tp)"
| "max_loop (pos # rest) b tp depth x_ms o_ms max_depth alpha beta best =
     (case place_mark b MO pos o_ms of
        Inl e \<Rightarrow> Inl e
      | Inr (removed, b1, new_moves) \<Rightarrow>
         (case (if check_winner b1 MO then Inr (Fin (10 - depth), b1, tp)
                else minimax_no_draw b1 tp (depth + 1) False x_ms new_moves max_depth
                       alpha beta) of
            Inl e \<Rightarrow> Inl e
          | Inr (score, b2, tp2) \<Rightarrow>
              let b3 = undo_mark b2 MO pos removed;
                  best' = max best score;
                  alpha' = max alpha best'
              in if beta \<le> alpha' then Inr (best', b3, tp2)
                 else max_loop rest b3 tp2 depth x_ms o_ms max_depth alpha' beta best'))"
| "min_loop [] b tp depth x_ms o_ms max_depth alpha beta best = Inr (best, b, tp)"
| "min_loop (pos # rest) b tp depth x_ms o_ms max_depth alpha beta best =
     (case place_mark b MX pos x_ms of
        Inl e \<Rightarrow> Inl e
      | Inr (removed, b1, new_moves) \<Rightarrow>
         (case (if check_winner b1 MX then Inr (Fin (depth - 10), b1, tp)
                else minimax_no_draw b1 tp (depth + 1) True new_moves o_ms max_depth
                       alpha beta) of
            Inl e \<Rightarrow> Inl e
          | Inr (score, b2, tp2) \<Rightarrow>
              let b3 = undo_mark b2 MX pos removed;
                  best' = min best score;
                  beta' = min beta best'
              in if beta' \<le> alpha then Inr (best', b3, tp2)
                 else min_loop rest b3 tp2 depth x_ms o_ms max_depth alpha beta' best'))"
  by pat_completeness auto
termination
  by (relation "measures
       [\<lambda>x. case x of
           Inl (b, tp, depth, is_maximizing, x_ms, o_ms, max_depth, alpha, beta) \<Rightarrow>
             2 * nat (max_depth - depth)
         | Inr (Inl (ps, b, tp, depth, x_ms, o_ms, max_depth, alpha, beta, best)) \<Rightarrow>
             2 * nat (max_depth - depth - 1) + 1
         | Inr (Inr (ps, b, tp, depth, x_ms, o_ms, max_depth, alpha, beta, best)) \<Rightarrow>
             2 * nat (max_depth - depth - 1) + 1,
        \<lambda>x. case x of
           Inl (b, tp, depth, is_maximizing, x_ms, o_ms, max_depth, alpha, beta) \<Rightarrow> 0
         | Inr (Inl (ps, b, tp, depth, x_ms, o_ms, max_depth, alpha, beta, best)) \<Rightarrow> length ps
         | Inr (Inr (ps, b, tp, depth, x_ms, o_ms, max_depth, alpha, beta, best)) \<Rightarrow> length ps]")
     auto

declare minimax_no_draw.simps [simp del]

text \<open>
  The fast path of \<^verbatim>\<open>get_hard_move_no_draw\<close>: each candidate is simulated on the list,
  tested and undone; the first winning one is returned. (The fast path does not append
  the position to its copy of the history, which it never reads again.)
\<close>

fun fast_path :: "nat list \<Rightarrow> board \<Rightarrow> nat list \<Rightarrow> py_error + (nat option \<times> board)" where
  "fast_path [] b o_ms = Inr (None, b)"
| "fast_path (pos # rest) b o_ms =
     (case place_mark b MO pos o_ms of
        Inl e \<Rightarrow> Inl e
      | Inr (removed, b1, sim_moves) \<Rightarrow>
          let won = check_winner b1 MO;
              b2 = undo_mark b1 MO pos removed
          in if won then Inr (Some pos, b2) else fast_path rest b2 o_ms)"

text \<open>
  The body of the main loop up to the assignment of \<^verbatim>\<open>score\<close> (lines 283 to 296): the
  simulation, then 10 for a completed line or the value of the recursive search.
\<close>

definition candidate_score ::
    "board \<Rightarrow> tp_table \<Rightarrow> nat list \<Rightarrow> nat list \<Rightarrow> int \<Rightarrow> ext \<Rightarrow> ext \<Rightarrow> nat
       \<Rightarrow> py_error + (ext \<times> board \<times> tp_table)" where
  "candidate_score b tp x_ms o_ms max_depth alpha beta pos =
     (case place_mark b MO pos o_ms of
        Inl e \<Rightarrow> Inl e
      | Inr (removed, b1, new_o_moves) \<Rightarrow>
          if check_winner b1 MO then Inr (Fin 10, b1, tp)
          else minimax_no_draw b1 tp 0 False x_ms new_o_moves max_depth alpha beta)"

text \<open>
  The main loop (lines 282 to 298). After \<^verbatim>\<open>score\<close> is computed the body only executes
  \<^verbatim>\<open>alpha = max(alpha, best_score)\<close>: the simulated mark stays on the list, and neither
  \<^verbatim>\<open>best_score\<close> nor \<^verbatim>\<open>best_move\<close> is assigned.
\<close>

fun hard_nd_loop ::
    "nat list \<Rightarrow> board \<Rightarrow> tp_table \<Rightarrow> nat list \<Rightarrow> nat list \<Rightarrow> int \<Rightarrow> ext \<Rightarrow> ext \<Rightarrow> ext
       \<Rightarrow> py_error + (board \<times> tp_table)" where
  "hard_nd_loop [] b tp x_ms o_ms max_depth alpha beta best_score = Inr (b, tp)"
| "hard_nd_loop (pos # rest) b tp x_ms o_ms max_depth alpha beta best_score =
     (case candidate_score b tp x_ms o_ms max_depth alpha beta pos of
        Inl e \<Rightarrow> Inl e
      | Inr (score, b1, tp1) \<Rightarrow>
          let alpha' = max alpha best_score
          in hard_nd_loop rest b1 tp1 x_ms o_ms max_depth alpha' beta best_score)"

text \<open>
  \<^verbatim>\<open>get_hard_move_no_draw\<close> returns the move; the model adds the list and the table as
  the call leaves them. The table is emptied first, so its content at entry does not
  matter. The first statement after that indexes \<^verbatim>\<open>board[0..8]\<close> and raises on a shorter
  list.
\<close>

definition get_hard_move_no_draw ::
    "board \<Rightarrow> nat list \<Rightarrow> nat list \<Rightarrow> py_error + (nat option \<times> board \<times> tp_table)" where
  "get_hard_move_no_draw b x_ms o_ms =
     (if length b < 9 then Inl IndexError
      else
        let tp = Map.empty;
            available = get_available_moves_no_draw b MO o_ms
        in if available = [] then Inr (None, b, tp)
           else case fast_path available b o_ms of
             Inl e \<Rightarrow> Inl e
           | Inr (Some pos, b1) \<Rightarrow> Inr (Some pos, b1, tp)
           | Inr (None, b1) \<Rightarrow>
               let max_depth = get_dynamic_depth b1;
                   best_score = MInf;
                   best_move = available ! 0;
                   alpha = MInf;
                   beta = PInf
               in case hard_nd_loop available b1 tp x_ms o_ms max_depth alpha beta
                         best_score of
                    Inl e \<Rightarrow> Inl e
                  | Inr (b2, tp2) \<Rightarrow> Inr (Some best_move, b2, tp2))"

section \<open>Notions used in the proof about the Hard AI\<close>

text \<open>
  \<open>o_safe b is_maximizing\<close>: from board \<open>b\<close>, with O to move when \<open>is_maximizing\<close> and X
  otherwise, O can play so that X never completes a line. It follows the case
  distinction of \<^verbatim>\<open>minimax\<close>, without the depth.
\<close>

function o_safe :: "board \<Rightarrow> bool \<Rightarrow> bool" where
  "o_safe b is_maximizing =
     (if check_winner b MO then True
      else if check_winner b MX then False
      else if is_board_full b then True
      else if is_maximizing
        then (\<exists>pos \<in> set (empty_cells b). o_safe (b[pos := Some MO]) False)
        else (\<forall>pos \<in> set (empty_cells b). o_safe (b[pos := Some MX]) True))"
  by pat_completeness auto
termination
  by (relation "measure (\<lambda>(b, is_maximizing). count_list b None)")
     (simp_all add: fill_cell_fewer_empty)

declare o_safe.simps [simp del]

text \<open>
  A bounded search that, when it answers \<open>True\<close>, establishes \<open>o_safe\<close>; it tries the
  candidates in order and stops at the first that decides.
\<close>

fun chk :: "nat \<Rightarrow> board \<Rightarrow> bool \<Rightarrow> bool"
and chk_all :: "nat \<Rightarrow> board \<Rightarrow> nat list \<Rightarrow> bool"
and chk_ex :: "nat \<Rightarrow> board \<Rightarrow> nat list \<Rightarrow> bool" where
  "chk 0 b m = False"
| "chk (Suc n) b m =
     (if check_winner b MO then True
      else if check_winner b MX then False
      else if is_board_full b then True
      else if m then chk_ex n b (empty_cells b) else chk_all n b (empty_cells b))"
| "chk_all n b [] = True"
| "chk_all n b (p # ps) = (if chk n (b[p := Some MX]) True then chk_all n b ps else False)"
| "chk_ex n b [] = False"
| "chk_ex n b (p # ps) = (if chk n (b[p := Some MO]) False then True else chk_ex n b ps)"

text \<open>
  The loops of \<^verbatim>\<open>minimax\<close> and \<^verbatim>\<open>get_hard_move\<close> as functions of the candidates left and
  the running value; the equations below unfold them one candidate at a time.
\<close>

definition max_over :: "board \<Rightarrow> int \<Rightarrow> nat list \<Rightarrow> ext \<Rightarrow> ext" where
  "max_over b depth ps best0 =
     fold (\<lambda>pos best. max best (minimax (b[pos := Some MO]) (depth + 1) False)) ps best0"

definition min_over :: "board \<Rightarrow> int \<Rightarrow> nat list \<Rightarrow> ext \<Rightarrow> ext" where
  "min_over b depth ps best0 =
     fold (\<lambda>pos best. min best (minimax (b[pos := Some MX]) (depth + 1) True)) ps best0"

definition best_over :: "board \<Rightarrow> nat list \<Rightarrow> ext \<times> nat \<Rightarrow> ext \<times> nat" where
  "best_over b ps init = fold
            (\<lambda>pos (best_score, best_move).
               let score = minimax (b[pos := Some MO]) 0 False
               in if score > best_score then (score, pos) else (best_score, best_move))
            ps init"

text \<open>The invariant of a playout against the Hard AI.\<close>

definition hp_inv :: "game \<Rightarrow> bool" where
  "hp_inv g = (length (board g) = 9 \<and> winner g \<noteq> Some MX \<and>
     (\<not> game_over g \<longrightarrow>
        \<not> check_winner (board g) MX \<and> \<not> check_winner (board g) MO \<and>
        \<not> is_board_full (board g) \<and> o_safe (board g) (current_player g = MO)))"

section \<open>Invariants used in the proofs\<close>

text \<open>
  Standard game: the board has 9 cells, and X has placed one mark more than O exactly
  when it is O's turn in a running game, or X made the last move of a finished one.
\<close>

definition std_inv :: "game \<Rightarrow> bool" where
  "std_inv g = (length (board g) = 9 \<and>
     count_mark (board g) MX =
       count_mark (board g) MO + (if (current_player g = MX) = game_over g then 1 else 0))"

text \<open>
  No-Draw game: a history lists, without repetition, exactly the cells that hold its
  player's mark, and holds at most 3 of them.
\<close>

definition hist_inv :: "board \<Rightarrow> mark \<Rightarrow> nat list \<Rightarrow> bool" where
  "hist_inv b pl ms =
     (distinct ms \<and> length ms \<le> 3 \<and> (\<forall>m \<in> set ms. m < 9) \<and>
      (\<forall>i<9. (b ! i = Some pl) = (i \<in> set ms)))"

definition nd_inv :: "nd_game \<Rightarrow> bool" where
  "nd_inv g = (length (board g) = 9 \<and> hist_inv (board g) MX (x_moves g) \<and>
      hist_inv (board g) MO (o_moves g) \<and> (game_over g \<longrightarrow> winner g \<noteq> None))"

text \<open>
  Snapshots handed to the No-Draw search: every entry of a history is a cell of the list
  that holds the player's mark, without repetition; and a candidate is a cell of the list
  that is Empty or is the oldest cell of a history of 3 or more.
\<close>

definition hist_ok :: "board \<Rightarrow> mark \<Rightarrow> nat list \<Rightarrow> bool" where
  "hist_ok b pl ms = (distinct ms \<and> (\<forall>m \<in> set ms. m < length b \<and> b ! m = Some pl))"

definition cand_ok :: "board \<Rightarrow> nat list \<Rightarrow> nat \<Rightarrow> bool" where
  "cand_ok b ms pos = (pos < length b \<and> (b ! pos = None \<or> (3 \<le> length ms \<and> pos = ms ! 0)))"

chapter \<open>Properties\<close>

section \<open>Rejected moves\<close>

text \<open>
  C4. For a Standard game and for a No-Draw game, and every integer position: when
  \<^verbatim>\<open>is_valid_move(position)\<close> is false, \<^verbatim>\<open>make_move(position)\<close> returns \<^verbatim>\<open>False\<close> and
  the whole object (board, current player, terminal flag, winner, and for No-Draw
  both histories) is as it was before the call.
\<close>

theorem invalid_move_rejected:
  "(\<not> is_valid_move g position \<longrightarrow> make_move g position = (False, g)) \<and>
   (\<not> nd_is_valid_move n position \<longrightarrow> nd_make_move n position = (False, n))"
  by (simp add: make_move_def nd_make_move_def)

theorem invalid_move_rejected_witness:
  "\<not> is_valid_move (snd (make_move reset 4)) 4 \<and>
   make_move (snd (make_move reset 4)) 4 = (False, snd (make_move reset 4)) \<and>
   \<not> nd_is_valid_move (snd (nd_make_move nd_reset 4)) 4 \<and>
   nd_make_move (snd (nd_make_move nd_reset 4)) 4 = (False, snd (nd_make_move nd_reset 4))"
proof -
  have a: "\<not> is_valid_move (snd (make_move reset 4)) 4"
    by (simp add: is_valid_move_def make_move_def reset_def check_winner_def
        WINNING_COMBINATIONS_def is_board_full_def Let_def)
  have b: "\<not> nd_is_valid_move (snd (nd_make_move nd_reset 4)) 4"
    by (simp add: nd_is_valid_move_def nd_make_move_def nd_reset_def check_winner_def
        WINNING_COMBINATIONS_def get_player_moves_def set_player_moves_def
        MAX_MARKS_def Let_def)
  from a b invalid_move_rejected [of "snd (make_move reset 4)" 4 "snd (nd_make_move nd_reset 4)"]
  show ?thesis by blast
qed


section \<open>Standard game: alternation and mark counts\<close>

lemma count_mark_update:
  "i < length b \<Longrightarrow> b ! i = None \<Longrightarrow>
   count_mark (b[i := Some p]) q = count_mark b q + (if p = q then 1 else 0)"
proof (induction b arbitrary: i)
  case Nil
  then show ?case by simp
next
  case (Cons c cs)
  then show ?case by (cases i) (auto simp: count_mark_def)
qed

lemma std_inv_reset: "std_inv reset"
  by (simp add: std_inv_def reset_def count_mark_def)

lemma std_inv_move:
  assumes "std_inv g" "is_valid_move g p"
  shows "std_inv (snd (make_move g p))"
proof -
  from assms(2) have v: "\<not> game_over g" "nat p < 9" "board g ! nat p = None"
    by (auto simp: is_valid_move_def)
  from assms(1) have l: "length (board g) = 9" by (simp add: std_inv_def)
  have c: "count_mark ((board g)[nat p := Some m]) q =
        count_mark (board g) q + (if m = q then 1 else 0)" for m q
    using count_mark_update[of "nat p" "board g"] v l by simp
  show ?thesis using assms v l
    by (cases "current_player g") (auto simp: std_inv_def make_move_def Let_def c)
qed

lemma reachable_std_inv: "reachable g \<Longrightarrow> std_inv g"
  by (induction rule: reachable.induct) (auto intro: std_inv_reset std_inv_move)

lemma play_reachable: "reachable g \<Longrightarrow> all_valid g ps \<Longrightarrow> reachable (play g ps)"
  by (induction ps arbitrary: g) (auto intro: reach_move)

text \<open>
  C9. In every state of a Standard game reached from \<^verbatim>\<open>reset()\<close> by valid moves, the
  numbers of X cells and of O cells differ by at most 1, and every valid move that does
  not end the game hands the turn to the other player.
\<close>

theorem standard_alternation:
  assumes "reachable g"
  shows "count_mark (board g) MX \<le> count_mark (board g) MO + 1 \<and>
         count_mark (board g) MO \<le> count_mark (board g) MX + 1 \<and>
         (\<forall>p. is_valid_move g p \<and> \<not> game_over (snd (make_move g p)) \<longrightarrow>
              current_player (snd (make_move g p)) = other (current_player g) \<and>
              current_player (snd (make_move g p)) \<noteq> current_player g)"
proof -
  from assms have "std_inv g" by (rule reachable_std_inv)
  then have "count_mark (board g) MX \<le> count_mark (board g) MO + 1"
       "count_mark (board g) MO \<le> count_mark (board g) MX + 1"
    by (auto simp: std_inv_def split: if_splits)
  moreover have "current_player (snd (make_move g p)) = other (current_player g) \<and>
              current_player (snd (make_move g p)) \<noteq> current_player g"
    if "is_valid_move g p" "\<not> game_over (snd (make_move g p))" for p
    using that by (cases "current_player g") (auto simp: make_move_def Let_def split: if_splits)
  ultimately show ?thesis by blast
qed

theorem standard_alternation_witness:
  "reachable (play reset [4, 0]) \<and>
   count_mark (board (play reset [4, 0])) MX \<le> count_mark (board (play reset [4, 0])) MO + 1 \<and>
   count_mark (board (play reset [4, 0])) MO \<le> count_mark (board (play reset [4, 0])) MX + 1 \<and>
   current_player (play reset [4, 0]) = MX \<and>
   is_valid_move (play reset [4, 0]) 8 \<and>
   \<not> game_over (snd (make_move (play reset [4, 0]) 8)) \<and>
   current_player (snd (make_move (play reset [4, 0]) 8)) = MO"
proof -
  have v: "all_valid reset [4, 0]" by code_simp
  have r: "reachable (play reset [4, 0])"
    by (rule play_reachable [OF reach_reset v])
  have e: "current_player (play reset [4, 0]) = MX" "is_valid_move (play reset [4, 0]) 8"
    "\<not> game_over (snd (make_move (play reset [4, 0]) 8))"
    by code_simp+
  from standard_alternation [OF r] r e show ?thesis by simp
qed

section \<open>No-Draw game: marks, histories, no draw\<close>

lemma hist_step_mover:
  assumes "hist_inv b pl ms" "length b = 9" "q < 9"
    "b ! q = None \<or> (b ! q = Some pl \<and> 3 \<le> length ms \<and> ms ! 0 = q)"
  shows "hist_inv ((if 3 \<le> length ms then b[ms ! 0 := None] else b)[q := Some pl]) pl
           ((if 3 \<le> length ms then tl ms else ms) @ [q])"
proof (cases "3 \<le> length ms")
  case False
  with assms show ?thesis
    by (auto simp: hist_inv_def nth_list_update)
next
  case True
  then obtain a rest where ms: "ms = a # rest" by (cases ms) auto
  with assms True show ?thesis
    by (auto simp: hist_inv_def nth_list_update)
qed

lemma hist_step_opp:
  assumes "hist_inv b pl ms" "hist_inv b pl' oms" "pl' \<noteq> pl" "length b = 9" "q < 9"
    "b ! q = None \<or> (b ! q = Some pl \<and> 3 \<le> length ms \<and> ms ! 0 = q)"
  shows "hist_inv ((if 3 \<le> length ms then b[ms ! 0 := None] else b)[q := Some pl]) pl' oms"
proof (cases "3 \<le> length ms")
  case False
  with assms show ?thesis
    by (auto simp: hist_inv_def nth_list_update)
next
  case True
  then obtain a rest where ms: "ms = a # rest" by (cases ms) auto
  with assms(1) have a: "a < 9" "b ! a = Some pl" by (auto simp: hist_inv_def)
  with assms(2,3) have "a \<notin> set oms" by (auto simp: hist_inv_def)
  with assms True ms a show ?thesis
    by (auto simp: hist_inv_def nth_list_update)
qed

lemma nd_valid_cases:
  assumes "nd_is_valid_move g p"
  shows "\<not> game_over g \<and> 0 \<le> p \<and> nat p < 9 \<and>
     (board g ! nat p = None \<or>
      (board g ! nat p = Some (current_player g) \<and>
       3 \<le> length (get_player_moves g (current_player g)) \<and>
       get_player_moves g (current_player g) ! 0 = nat p))"
  using assms by (auto simp: nd_is_valid_move_def Let_def MAX_MARKS_def split: if_splits)

lemma nd_inv_reset: "nd_inv nd_reset"
  by (simp add: nd_inv_def nd_reset_def hist_inv_def)

lemma nd_inv_move:
  assumes "nd_inv g" "nd_is_valid_move g p"
  shows "nd_inv (snd (nd_make_move g p))"
proof -
  note v = nd_valid_cases[OF assms(2)]
  from assms(1) have l: "length (board g) = 9"
    and hx: "hist_inv (board g) MX (x_moves g)" and ho: "hist_inv (board g) MO (o_moves g)"
    by (auto simp: nd_inv_def)
  show ?thesis
  proof (cases "current_player g")
    case MX
    from v MX have vv: "board g ! nat p = None \<or>
      (board g ! nat p = Some MX \<and> 3 \<le> length (x_moves g) \<and> x_moves g ! 0 = nat p)"
      by (auto simp: get_player_moves_def)
    from hist_step_mover[OF hx l _ vv] hist_step_opp[OF hx ho _ l _ vv] v
    show ?thesis using assms(2) MX l
      by (auto simp: nd_inv_def nd_make_move_def Let_def get_player_moves_def
          set_player_moves_def MAX_MARKS_def split: if_splits)
  next
    case MO
    from v MO have vv: "board g ! nat p = None \<or>
      (board g ! nat p = Some MO \<and> 3 \<le> length (o_moves g) \<and> o_moves g ! 0 = nat p)"
      by (auto simp: get_player_moves_def)
    from hist_step_mover[OF ho l _ vv] hist_step_opp[OF ho hx _ l _ vv] v
    show ?thesis using assms(2) MO l
      by (auto simp: nd_inv_def nd_make_move_def Let_def get_player_moves_def
          set_player_moves_def MAX_MARKS_def split: if_splits)
  qed
qed

lemma nd_reachable_inv: "nd_reachable g \<Longrightarrow> nd_inv g"
  by (induction rule: nd_reachable.induct) (auto intro: nd_inv_reset nd_inv_move)

lemma hist_inv_count:
  assumes "hist_inv b pl ms" "length b = 9"
  shows "count_mark b pl = length ms"
proof -
  have "count_mark b pl = card {i. i < length b \<and> b ! i = Some pl}"
    by (simp add: count_mark_def length_filter_conv_card)
  also have "{i. i < length b \<and> b ! i = Some pl} = set ms"
    using assms by (auto simp: hist_inv_def)
  also have "card (set ms) = length ms"
    using assms by (simp add: hist_inv_def distinct_card)
  finally show ?thesis .
qed

lemma nd_play_reachable: "nd_reachable g \<Longrightarrow> nd_all_valid g ps \<Longrightarrow> nd_reachable (nd_play g ps)"
  by (induction ps arbitrary: g) (auto intro: nd_reach_move)

text \<open>
  C5. In every No-Draw state reached from \<^verbatim>\<open>reset()\<close> by valid moves, each player has at
  most 3 marks on the board and at most as many as the length of the player's history,
  each history has at most 3 entries, the game is never over without a winner, and
  \<^verbatim>\<open>is_board_full\<close> answers \<^verbatim>\<open>False\<close>.
\<close>

theorem no_draw_invariant:
  assumes "nd_reachable g"
  shows "count_mark (board g) MX \<le> 3 \<and> count_mark (board g) MX \<le> length (x_moves g) \<and>
         count_mark (board g) MO \<le> 3 \<and> count_mark (board g) MO \<le> length (o_moves g) \<and>
         length (x_moves g) \<le> 3 \<and> length (o_moves g) \<le> 3 \<and>
         \<not> (game_over g \<and> winner g = None) \<and> \<not> nd_is_board_full g"
proof -
  from assms have i: "nd_inv g" by (rule nd_reachable_inv)
  then have "count_mark (board g) MX = length (x_moves g)" "count_mark (board g) MO = length (o_moves g)"
    by (auto simp: nd_inv_def intro: hist_inv_count)
  with i show ?thesis by (auto simp: nd_inv_def hist_inv_def nd_is_board_full_def)
qed

theorem no_draw_invariant_witness:
  "nd_reachable (nd_play nd_reset [0, 1, 2, 3, 4, 5, 7]) \<and>
   count_mark (board (nd_play nd_reset [0, 1, 2, 3, 4, 5, 7])) MX = 3 \<and>
   x_moves (nd_play nd_reset [0, 1, 2, 3, 4, 5, 7]) = [2, 4, 7] \<and>
   count_mark (board (nd_play nd_reset [0, 1, 2, 3, 4, 5, 7])) MO \<le> 3 \<and>
   \<not> (game_over (nd_play nd_reset [0, 1, 2, 3, 4, 5, 7]) \<and>
      winner (nd_play nd_reset [0, 1, 2, 3, 4, 5, 7]) = None)"
proof -
  have v: "nd_all_valid nd_reset [0, 1, 2, 3, 4, 5, 7]" by code_simp
  have r: "nd_reachable (nd_play nd_reset [0, 1, 2, 3, 4, 5, 7])"
    by (rule nd_play_reachable [OF nd_reach_reset v])
  have e: "count_mark (board (nd_play nd_reset [0, 1, 2, 3, 4, 5, 7])) MX = 3"
    "x_moves (nd_play nd_reset [0, 1, 2, 3, 4, 5, 7]) = [2, 4, 7]"
    by code_simp+
  from no_draw_invariant [OF r] r e show ?thesis by simp
qed

section \<open>No-Draw game: first in, first out\<close>

text \<open>
  C6, as the engine has it. In a reachable No-Draw state where the mover's history
  holds 3 entries, a valid move to \<open>p\<close> is accepted, drops the front entry of that
  history and appends \<open>p\<close>, and leaves the mover's mark at \<open>p\<close>; the cell of the
  dropped entry is Empty afterwards unless \<open>p\<close> is that very cell (the engine accepts a
  move onto the mover's own oldest mark). In particular, from \<open>x_moves = [0, 2, 4]\<close> a
  valid move of X to 6 empties cell 0 and leaves \<open>x_moves = [2, 4, 6]\<close>.
\<close>

theorem no_draw_fifo:
  assumes "nd_reachable g" "length (get_player_moves g (current_player g)) = 3"
    "nd_is_valid_move g p"
  shows "fst (nd_make_move g p) \<and>
     get_player_moves (snd (nd_make_move g p)) (current_player g) =
       tl (get_player_moves g (current_player g)) @ [nat p] \<and>
     board (snd (nd_make_move g p)) ! nat p = Some (current_player g) \<and>
     (hd (get_player_moves g (current_player g)) \<noteq> nat p \<longrightarrow>
        board (snd (nd_make_move g p)) ! hd (get_player_moves g (current_player g)) = None) \<and>
     (current_player g = MX \<and> x_moves g = [0, 2, 4] \<and> p = 6 \<longrightarrow>
        board (snd (nd_make_move g p)) ! 0 = None \<and> x_moves (snd (nd_make_move g p)) = [2, 4, 6])"
proof -
  from assms(1) have i: "nd_inv g" by (rule nd_reachable_inv)
  note v = nd_valid_cases[OF assms(3)]
  let ?ms = "get_player_moves g (current_player g)"
  from assms(2) obtain a rest where ms: "?ms = a # rest" by (cases ?ms) auto
  from i ms have a: "a < 9" 
    by (cases "current_player g") (auto simp: nd_inv_def hist_inv_def get_player_moves_def)
  from i have l: "length (board g) = 9" by (simp add: nd_inv_def)
  show ?thesis using assms(2,3) v ms a l
    by (cases "current_player g")
       (auto simp: nd_make_move_def Let_def get_player_moves_def set_player_moves_def
          MAX_MARKS_def nth_list_update)
qed

lemma fifo_script_valid: "nd_all_valid nd_reset [0, 1, 2, 3, 4, 5]"
  by code_simp

lemma fifo_script_state: "nd_play nd_reset [0, 1, 2, 3, 4, 5] = 
  \<lparr> board = [Some MX, Some MO, Some MX, Some MO, Some MX, Some MO, None, None, None], current_player = MX,
                game_over = False, winner = None, x_moves = [0,2,4], o_moves = [1,3,5] \<rparr>"
  by code_simp

theorem no_draw_fifo_witness:
  "nd_reachable (nd_play nd_reset [0, 1, 2, 3, 4, 5]) \<and>
   current_player (nd_play nd_reset [0, 1, 2, 3, 4, 5]) = MX \<and>
   x_moves (nd_play nd_reset [0, 1, 2, 3, 4, 5]) = [0, 2, 4] \<and>
   nd_is_valid_move (nd_play nd_reset [0, 1, 2, 3, 4, 5]) 6 \<and>
   board (snd (nd_make_move (nd_play nd_reset [0, 1, 2, 3, 4, 5]) 6)) ! 0 = None \<and>
   x_moves (snd (nd_make_move (nd_play nd_reset [0, 1, 2, 3, 4, 5]) 6)) = [2, 4, 6]"
proof -
  let ?g = "nd_play nd_reset [0, 1, 2, 3, 4, 5]"
  have r: "nd_reachable ?g"
    by (rule nd_play_reachable [OF nd_reach_reset fifo_script_valid])
  have c: "current_player ?g = MX" "x_moves ?g = [0, 2, 4]" by (simp_all only: fifo_script_state) simp_all
  have l: "length (get_player_moves ?g (current_player ?g)) = 3"
    by (simp only: fifo_script_state) (simp add: get_player_moves_def)
  have v: "nd_is_valid_move ?g 6" by (simp only: fifo_script_state) (simp add: nd_is_valid_move_def)
  from no_draw_fifo [OF r l v] c r v show ?thesis by simp
qed

text \<open>
  The claim without the exception fails: after the moves 0, 1, 2, 5, 3, 4 it is X's turn
  with history \<open>[0, 2, 3]\<close>; the move to 0 is valid, and cell 0 holds X afterwards.
\<close>

theorem no_draw_fifo_front_refilled:
  "nd_all_valid nd_reset [0, 1, 2, 5, 3, 4] \<and>
   current_player (nd_play nd_reset [0, 1, 2, 5, 3, 4]) = MX \<and>
   x_moves (nd_play nd_reset [0, 1, 2, 5, 3, 4]) = [0, 2, 3] \<and>
   nd_is_valid_move (nd_play nd_reset [0, 1, 2, 5, 3, 4]) 0 \<and>
   fst (nd_make_move (nd_play nd_reset [0, 1, 2, 5, 3, 4]) 0) \<and>
   board (snd (nd_make_move (nd_play nd_reset [0, 1, 2, 5, 3, 4]) 0)) ! 0 = Some MX \<and>
   x_moves (snd (nd_make_move (nd_play nd_reset [0, 1, 2, 5, 3, 4]) 0)) = [2, 3, 0]"
  by code_simp

section \<open>Medium AI\<close>

text \<open>
  C8. On \<^verbatim>\<open>['X','X',None,'O','O',None,None,None,None]\<close> \<^verbatim>\<open>get_medium_move\<close> returns 5
  (its own win, not the block), and on \<^verbatim>\<open>['X','X',None,'O',None,None,None,None,None]\<close>
  it returns 2 (the block), whatever the random source.
\<close>

theorem medium_win_then_block:
  "get_medium_move r [Some MX, Some MX, None, Some MO, Some MO, None, None, None, None]
     = Inr (Some 5) \<and>
   get_medium_move r [Some MX, Some MX, None, Some MO, None, None, None, None, None]
     = Inr (Some 2)"
  by (simp add: get_medium_move_def find_winning_move_def WINNING_COMBINATIONS_def
      empty_cells_def upt_rec numeral_eq_Suc)

lemma set_available_cells:
  "set (available_cells b ms) = set (empty_cells b) \<union> (if length ms \<ge> 3 then {ms ! 0} else {})"
  by (auto simp: available_cells_def Let_def)







section \<open>Hard AI, Standard game: never loses\<close>

lemma chk_sound:
  "(chk n b m \<longrightarrow> o_safe b m)"
  "(chk_all n b ps \<longrightarrow> (\<forall>p \<in> set ps. o_safe (b[p := Some MX]) True))"
  "(chk_ex n b ps \<longrightarrow> (\<exists>p \<in> set ps. o_safe (b[p := Some MO]) False))"
proof (induction n b m and n b ps and n b ps rule: chk_chk_all_chk_ex.induct)
  case (2 n b m)
  then show ?case by (subst o_safe.simps) auto
qed auto

lemma fold_max_ge:
  "((c :: ext) \<le> fold (\<lambda>pos best. max best (f pos)) xs init) =
     (c \<le> init \<or> (\<exists>pos \<in> set xs. c \<le> f pos))"
  by (induction xs arbitrary: init) (auto simp: le_max_iff_disj)

lemma fold_min_ge:
  "((c :: ext) \<le> fold (\<lambda>pos best. min best (f pos)) xs init) =
     (c \<le> init \<and> (\<forall>pos \<in> set xs. c \<le> f pos))"
  by (induction xs arbitrary: init) auto

lemma empty_cells_fill:
  assumes "pos \<in> set (empty_cells b)"
  shows "length (empty_cells (b[pos := Some m])) < length (empty_cells b)"
proof -
  from assms have p: "pos < length b" "b ! pos = None" "pos < 9" by (auto simp: empty_cells_def)
  have "length (empty_cells (b[pos := Some m])) = card {i. i < 9 \<and> i < length b \<and> b[pos := Some m] ! i = None}"
    by (auto simp: empty_cells_def distinct_length_filter intro: arg_cong[where f=card])
  also have "{i. i < 9 \<and> i < length b \<and> b[pos := Some m] ! i = None} \<subset> {i. i < 9 \<and> i < length b \<and> b ! i = None}"
    using p by (auto simp: nth_list_update)
  then have "card {i. i < 9 \<and> i < length b \<and> b[pos := Some m] ! i = None} < card {i. i < 9 \<and> i < length b \<and> b ! i = None}"
    by (intro psubset_card_mono) auto
  also have "card {i. i < 9 \<and> i < length b \<and> b ! i = None} = length (empty_cells b)"
    by (auto simp: empty_cells_def distinct_length_filter intro: arg_cong[where f=card])
  finally show ?thesis .
qed

lemma minimax_sign:
  "depth + int (length (empty_cells b)) \<le> 9 \<Longrightarrow> (Fin 0 \<le> minimax b depth m) = o_safe b m"
proof (induction b depth m rule: minimax.induct)
  case (1 b depth m)
  have d: "depth \<le> 9" using "1.prems" by linarith
  show ?case
  proof (cases "check_winner b MO \<or> check_winner b MX \<or> is_board_full b")
    case True
    with d show ?thesis by (subst minimax.simps, subst o_safe.simps) auto
  next
    case False
    have sub: "depth + 1 + int (length (empty_cells (b[pos := Some q]))) \<le> 9"
      if "pos \<in> set (empty_cells b)" for pos q
      using empty_cells_fill[OF that, of q] "1.prems" by linarith
    show ?thesis
    proof (cases m)
      case True
      have "(Fin 0 \<le> minimax (b[pos := Some MO]) (depth + 1) False) = o_safe (b[pos := Some MO]) False"
        if "pos \<in> set (empty_cells b)" for pos
        using "1.IH"(1)[OF _ _ _ _ that] False True sub[OF that] by auto
      with False True show ?thesis
        by (subst minimax.simps, subst o_safe.simps) (auto simp: fold_max_ge)
    next
      case f: False
      have "(Fin 0 \<le> minimax (b[pos := Some MX]) (depth + 1) True) = o_safe (b[pos := Some MX]) True"
        if "pos \<in> set (empty_cells b)" for pos
        using "1.IH"(2)[OF _ _ _ _ that] False f sub[OF that] by auto
      with False f show ?thesis
        by (subst minimax.simps, subst o_safe.simps) (auto simp: fold_min_ge)
    qed
  qed
qed

lemma fold_argmax:
  assumes "fold (\<lambda>pos (best_score, best_move).
               let score = f pos
               in if score > best_score then (score, pos) else (best_score, best_move))
            xs (s0 :: ext, m0 :: nat) = (s, m)"
  shows "(\<forall>x \<in> set xs. f x \<le> s) \<and> s0 \<le> s \<and> ((s = s0 \<and> m = m0) \<or> (m \<in> set xs \<and> f m = s))"
  using assms
proof (induction xs arbitrary: s0 m0)
  case Nil
  then show ?case by simp
next
  case (Cons x xs)
  show ?case
  proof (cases "f x > s0")
    case True
    with Cons.prems have "fold (\<lambda>pos (best_score, best_move).
               let score = f pos
               in if score > best_score then (score, pos) else (best_score, best_move))
            xs (f x, x) = (s, m)" by (simp add: Let_def)
    from Cons.IH[OF this] True show ?thesis by auto
  next
    case False
    with Cons.prems have "fold (\<lambda>pos (best_score, best_move).
               let score = f pos
               in if score > best_score then (score, pos) else (best_score, best_move))
            xs (s0, m0) = (s, m)" by (simp add: Let_def)
    from Cons.IH[OF this] False show ?thesis by auto
  qed
qed

lemma get_hard_move_argmax:
  assumes "get_hard_move b = Inr (Some q)"
  shows "q \<in> set (empty_cells b) \<and>
     (\<forall>pos \<in> set (empty_cells b). minimax (b[pos := Some MO]) 0 False \<le> minimax (b[q := Some MO]) 0 False)"
proof -
  let ?f = "\<lambda>pos. minimax (b[pos := Some MO]) 0 False"
  let ?F = "fold (\<lambda>pos (best_score, best_move).
               let score = ?f pos
               in if score > best_score then (score, pos) else (best_score, best_move))
            (empty_cells b) (MInf, empty_cells b ! 0)"
  from assms have ne: "empty_cells b \<noteq> []" and q: "q = snd ?F"
    by (auto simp: get_hard_move_def Let_def split: if_splits)
  obtain s m where sm: "?F = (s, m)" by (cases ?F)
  from fold_argmax[of ?f, OF sm] have
    a: "\<forall>x \<in> set (empty_cells b). ?f x \<le> s" and
    c: "(s = MInf \<and> m = empty_cells b ! 0) \<or> (m \<in> set (empty_cells b) \<and> ?f m = s)" by auto
  from ne have h: "empty_cells b ! 0 \<in> set (empty_cells b)" by (cases "empty_cells b") auto
  from c show ?thesis
  proof
    assume e: "s = MInf \<and> m = empty_cells b ! 0"
    with a have "\<forall>x \<in> set (empty_cells b). ?f x = MInf"
      by (metis less_eq_ext.simps(1) order_antisym)
    with e h q sm show ?thesis by auto
  next
    assume "m \<in> set (empty_cells b) \<and> ?f m = s"
    with a q sm show ?thesis by auto
  qed
qed


lemma check_winner_other:
  assumes "pos < length b" "q \<noteq> p" "check_winner (b[pos := Some p]) q"
  shows "check_winner b q"
proof -
  have "line_owned (b[pos := Some p]) q c \<Longrightarrow> line_owned b q c" for c
    using assms(1,2) by (cases c) (auto simp: nth_list_update split: if_splits)
  with assms(3) show ?thesis
    by (auto simp: check_winner_def list_ex_iff)
qed

lemma empty_cells_valid:
  "\<not> game_over g \<Longrightarrow> q \<in> set (empty_cells (board g)) \<Longrightarrow> is_valid_move g (int q)"
  by (auto simp: is_valid_move_def empty_cells_def)

lemma valid_empty_cell:
  "length (board g) = 9 \<Longrightarrow> is_valid_move g p \<Longrightarrow> nat p \<in> set (empty_cells (board g))"
  by (auto simp: is_valid_move_def empty_cells_def)

lemma hp_inv_step:
  assumes inv: "hp_inv g" and ng: "\<not> game_over g"
    and pos: "pos \<in> set (empty_cells (board g))"
    and safe: "o_safe ((board g)[pos := Some (current_player g)]) (current_player g = MX)"
  shows "hp_inv (snd (make_move g (int pos)))"
proof -
  let ?p = "current_player g"
  let ?b' = "(board g)[pos := Some ?p]"
  from inv ng have l: "length (board g) = 9" and nw: "\<not> check_winner (board g) (other ?p)"
    by (cases ?p; auto simp: hp_inv_def)+
  from pos l have p9: "pos < length (board g)" by (auto simp: empty_cells_def)
  have op: "other ?p \<noteq> ?p" by (cases ?p) auto
  from check_winner_other[OF p9 op] nw have nw': "\<not> check_winner ?b' (other ?p)" by blast
  from ng pos have v: "is_valid_move g (int pos)" by (rule empty_cells_valid)
  show ?thesis
  proof (cases ?p)
    case MX
    with safe nw' have "\<not> check_winner ?b' MX"
      by (subst (asm) o_safe.simps) (auto split: if_splits)
    with MX v l nw' safe inv show ?thesis
      by (auto simp: hp_inv_def make_move_def Let_def)
  next
    case MO
    with v l nw' safe inv show ?thesis
      by (auto simp: hp_inv_def make_move_def Let_def)
  qed
qed

lemma hard_move_safe:
  assumes inv: "hp_inv g" and ng: "\<not> game_over g" and cp: "current_player g = MO"
  shows "\<exists>q. get_hard_move (board g) = Inr (Some q)"
    and "get_hard_move (board g) = Inr (Some q) \<Longrightarrow>
           q \<in> set (empty_cells (board g)) \<and> o_safe ((board g)[q := Some MO]) False"
proof -
  let ?b = "board g"
  from inv ng cp have l: "length ?b = 9" and nt: "\<not> check_winner ?b MX" "\<not> check_winner ?b MO"
    "\<not> is_board_full ?b" and s: "o_safe ?b True" by (auto simp: hp_inv_def)
  from s nt obtain pos where pos: "pos \<in> set (empty_cells ?b)" "o_safe (?b[pos := Some MO]) False"
    by (subst (asm) o_safe.simps) auto
  from pos(1) have ne: "empty_cells ?b \<noteq> []" by auto
  with l show "\<exists>q. get_hard_move ?b = Inr (Some q)"
    by (simp add: get_hard_move_def Let_def)
  assume q: "get_hard_move ?b = Inr (Some q)"
  note am = get_hard_move_argmax[OF q]
  have bound: "0 + int (length (empty_cells (?b[p := Some MO]))) \<le> 9" for p
    by (simp add: empty_cells_def) (metis diff_zero length_filter_le length_upt)
  from pos(2) have "Fin 0 \<le> minimax (?b[pos := Some MO]) 0 False"
    by (simp add: minimax_sign[OF bound])
  also from am pos(1) have "\<dots> \<le> minimax (?b[q := Some MO]) 0 False" by blast
  finally have "o_safe (?b[q := Some MO]) False" by (simp add: minimax_sign[OF bound])
  with am show "q \<in> set (empty_cells ?b) \<and> o_safe (?b[q := Some MO]) False" by blast
qed

lemma hp_inv_reset:
  assumes "o_safe (replicate 9 None) False"
  shows "hp_inv reset"
proof -
  have "\<not> check_winner (replicate 9 None) MX" "\<not> check_winner (replicate 9 None) MO"
    "\<not> is_board_full (replicate 9 None)"
    by code_simp+
  with assms show ?thesis by (simp add: hp_inv_def reset_def)
qed

lemma hp_inv_reset_o:
  assumes "o_safe (replicate 9 None) True"
  shows "hp_inv (reset\<lparr> current_player := MO \<rparr>)"
proof -
  have "\<not> check_winner (replicate 9 None) MX" "\<not> check_winner (replicate 9 None) MO"
    "\<not> is_board_full (replicate 9 None)"
    by code_simp+
  with assms show ?thesis by (simp add: hp_inv_def reset_def)
qed

lemma hard_playout_inv:
  assumes "o_safe (replicate 9 None) False" "o_safe (replicate 9 None) True"
  shows "hard_playout g \<Longrightarrow> hp_inv g"
proof (induction rule: hard_playout.induct)
  case hp_reset
  from assms(1) show ?case by (rule hp_inv_reset)
next
  case hp_reset_o
  from assms(2) show ?case by (rule hp_inv_reset_o)
next
  case (hp_x g p)
  from hp_x.hyps(3) have ng: "\<not> game_over g" and p0: "0 \<le> p" by (auto simp: is_valid_move_def)
  from hp_x.IH have l: "length (board g) = 9" by (simp add: hp_inv_def)
  from valid_empty_cell[OF l hp_x.hyps(3)] have pos: "nat p \<in> set (empty_cells (board g))" .
  from hp_x.IH ng hp_x.hyps(2) have "o_safe (board g) False"
    "\<not> check_winner (board g) MX" "\<not> check_winner (board g) MO" "\<not> is_board_full (board g)"
    by (auto simp: hp_inv_def)
  with pos have "o_safe ((board g)[nat p := Some MX]) True"
    by (subst (asm) o_safe.simps) auto
  with hp_inv_step[OF hp_x.IH ng pos] hp_x.hyps(2) p0 show ?case by simp
next
  case (hp_o g q)
  from hard_move_safe(2)[OF hp_o.IH hp_o.hyps(3) hp_o.hyps(2) hp_o.hyps(4)]
  have "q \<in> set (empty_cells (board g))" "o_safe ((board g)[q := Some MO]) False" by auto
  with hp_inv_step[OF hp_o.IH hp_o.hyps(3), of q] hp_o.hyps(2) show ?case by simp
qed


lemma max_over_code [code]:
  "max_over b depth [] best = best"
  "max_over b depth (pos # ps) best =
     max_over b depth ps (max best (minimax (b[pos := Some MO]) (depth + 1) False))"
  by (simp_all add: max_over_def)

lemma min_over_code [code]:
  "min_over b depth [] best = best"
  "min_over b depth (pos # ps) best =
     min_over b depth ps (min best (minimax (b[pos := Some MX]) (depth + 1) True))"
  by (simp_all add: min_over_def)

lemma minimax_code [code]:
  "minimax b depth is_maximizing =
     (if check_winner b MO then Fin (10 - depth)
      else if check_winner b MX then Fin (depth - 10)
      else if is_board_full b then Fin 0
      else if is_maximizing then max_over b depth (empty_cells b) MInf
      else min_over b depth (empty_cells b) PInf)"
  by (subst minimax.simps) (simp add: max_over_def min_over_def)

lemma best_over_code [code]:
  "best_over b [] init = init"
  "best_over b (pos # ps) (best_score, best_move) =
     (let score = minimax (b[pos := Some MO]) 0 False
      in if score > best_score then best_over b ps (score, pos)
         else best_over b ps (best_score, best_move))"
  by (simp_all add: best_over_def Let_def)

lemma get_hard_move_code [code]:
  "get_hard_move b =
     (if length b < 9 then Inl IndexError
      else
        let empty = empty_cells b in
        if empty = [] then Inr None
        else Inr (Some (snd (best_over b empty (MInf, empty ! 0)))))"
  unfolding get_hard_move_def best_over_def by (rule refl)

lemma open0: "chk 9 [Some MX, None, None, None, None, None, None, None, None] True" by code_simp
lemma open1: "chk 9 [None, Some MX, None, None, None, None, None, None, None] True" by code_simp
lemma open2: "chk 9 [None, None, Some MX, None, None, None, None, None, None] True" by code_simp
lemma open3: "chk 9 [None, None, None, Some MX, None, None, None, None, None] True" by code_simp
lemma open4: "chk 9 [None, None, None, None, Some MX, None, None, None, None] True" by code_simp
lemma open5: "chk 9 [None, None, None, None, None, Some MX, None, None, None] True" by code_simp
lemma open6: "chk 9 [None, None, None, None, None, None, Some MX, None, None] True" by code_simp
lemma open7: "chk 9 [None, None, None, None, None, None, None, Some MX, None] True" by code_simp
lemma open8: "chk 9 [None, None, None, None, None, None, None, None, Some MX] True" by code_simp

lemma empty_board_cells: "empty_cells (replicate 9 None) = [0, 1, 2, 3, 4, 5, 6, 7, 8]"
  by code_simp

lemma empty_board_safe: "o_safe (replicate 9 None) False"
proof -
  have e: "replicate 9 None = [None, None, None, None, None, None, None, None, None :: cell]"
    by code_simp
  have "\<not> check_winner (replicate 9 None) MX" "\<not> check_winner (replicate 9 None) MO"
    "\<not> is_board_full (replicate 9 None)"
    by code_simp+
  moreover have "o_safe ((replicate 9 None)[pos := Some MX]) True"
    if "pos \<in> set (empty_cells (replicate 9 None))" for pos
  proof -
    from that have "pos \<in> {0, 1, 2, 3, 4, 5, 6, 7, 8}" by (simp add: empty_board_cells)
    then show ?thesis
      using open0 open1 open2 open3 open4 open5 open6 open7 open8
      by (auto simp: e dest!: chk_sound(1)[rule_format])
  qed
  ultimately show ?thesis by (subst o_safe.simps) auto
qed


lemma play_snoc: "play g (ms @ [p]) = snd (make_move (play g ms) p)"
  by (induction ms arbitrary: g) auto

lemma hard_playout_x:
  assumes "hard_playout (play reset ms)" "current_player (play reset ms) = MX"
    "is_valid_move (play reset ms) p"
  shows "hard_playout (play reset (ms @ [p]))"
  using hp_x [OF assms] by (simp add: play_snoc)

lemma hard_playout_o:
  assumes "hard_playout (play reset ms)" "current_player (play reset ms) = MO"
    "\<not> game_over (play reset ms)" "get_hard_move (board (play reset ms)) = Inr (Some q)"
  shows "hard_playout (play reset (ms @ [int q]))"
  using hp_o [OF assms] by (simp add: play_snoc)

text \<open>The empty board with O to move: O takes cell 0 and is safe from there.\<close>

lemma corner_opening: "chk 9 [Some MO, None, None, None, None, None, None, None, None] False"
  by code_simp

lemma empty_board_safe_o: "o_safe (replicate 9 None) True"
proof -
  have e: "replicate 9 None = [None, None, None, None, None, None, None, None, None :: cell]"
    by code_simp
  have n: "\<not> check_winner (replicate 9 None) MX" "\<not> check_winner (replicate 9 None) MO"
    "\<not> is_board_full (replicate 9 None)"
    by code_simp+
  have "0 \<in> set (empty_cells (replicate 9 None))" by (simp add: empty_board_cells)
  moreover have "o_safe ((replicate 9 None)[0 := Some MO]) False"
    using chk_sound(1) [rule_format, OF corner_opening] by (simp add: e)
  ultimately show ?thesis using n by (subst o_safe.simps) auto
qed

text \<open>
  The replies of \<^verbatim>\<open>get_hard_move\<close> in one game: X opens in the centre, and the scores of
  the eight replies are computed one by one.
\<close>

lemma centre_reply_0:
  "minimax [Some MO, None, None, None, Some MX, None, None, None, None] 0 False = Fin 0"
  by code_simp

lemma centre_reply_1:
  "minimax [None, Some MO, None, None, Some MX, None, None, None, None] 0 False = Fin (- 5)"
  by code_simp

lemma centre_reply_2:
  "minimax [None, None, Some MO, None, Some MX, None, None, None, None] 0 False = Fin 0"
  by code_simp

lemma centre_reply_3:
  "minimax [None, None, None, Some MO, Some MX, None, None, None, None] 0 False = Fin (- 5)"
  by code_simp

lemma centre_reply_5:
  "minimax [None, None, None, None, Some MX, Some MO, None, None, None] 0 False = Fin (- 5)"
  by code_simp

lemma centre_reply_6:
  "minimax [None, None, None, None, Some MX, None, Some MO, None, None] 0 False = Fin 0"
  by code_simp

lemma centre_reply_7:
  "minimax [None, None, None, None, Some MX, None, None, Some MO, None] 0 False = Fin (- 5)"
  by code_simp

lemma centre_reply_8:
  "minimax [None, None, None, None, Some MX, None, None, None, Some MO] 0 False = Fin 0"
  by code_simp

lemma reply_after_4:
  "get_hard_move [None, None, None, None, Some MX, None, None, None, None] = Inr (Some 0)"
proof -
  have e: "empty_cells [None, None, None, None, Some MX, None, None, None, None] = [0, 1, 2, 3, 5, 6, 7, 8]"
    by code_simp
  show ?thesis
    by (simp add: get_hard_move_code e best_over_code less_ext_def
        centre_reply_0
        centre_reply_1
        centre_reply_2
        centre_reply_3
        centre_reply_5
        centre_reply_6
        centre_reply_7
        centre_reply_8)
qed

lemma second_reply_1:
  "minimax [Some MO, Some MO, None, None, Some MX, None, None, None, Some MX] 0 False = Fin (- 7)"
  by code_simp

lemma second_reply_2:
  "minimax [Some MO, None, Some MO, None, Some MX, None, None, None, Some MX] 0 False = Fin 0"
  by code_simp

lemma second_reply_3:
  "minimax [Some MO, None, None, Some MO, Some MX, None, None, None, Some MX] 0 False = Fin (- 7)"
  by code_simp

lemma second_reply_5:
  "minimax [Some MO, None, None, None, Some MX, Some MO, None, None, Some MX] 0 False = Fin (- 7)"
  by code_simp

lemma second_reply_6:
  "minimax [Some MO, None, None, None, Some MX, None, Some MO, None, Some MX] 0 False = Fin 0"
  by code_simp

lemma second_reply_7:
  "minimax [Some MO, None, None, None, Some MX, None, None, Some MO, Some MX] 0 False = Fin (- 7)"
  by code_simp

lemma reply_after_4_0_8:
  "get_hard_move [Some MO, None, None, None, Some MX, None, None, None, Some MX] = Inr (Some 2)"
proof -
  have e: "empty_cells [Some MO, None, None, None, Some MX, None, None, None, Some MX] = [1, 2, 3, 5, 6, 7]"
    by code_simp
  show ?thesis
    by (simp add: get_hard_move_code e best_over_code less_ext_def
        second_reply_1
        second_reply_2
        second_reply_3
        second_reply_5
        second_reply_6
        second_reply_7)
qed

lemma reply_after_4_0_8_2_1:
  "get_hard_move [Some MO, Some MX, Some MO, None, Some MX, None, None, None, Some MX] = Inr (Some 7)"
  by code_simp

lemma reply_after_4_0_8_2_1_7_3:
  "get_hard_move [Some MO, Some MX, Some MO, Some MX, Some MX, None, None, Some MO, Some MX] = Inr (Some 5)"
  by code_simp

text \<open>
  C3. In every playout of the Standard game in which X plays any valid move on its turns
  and every move of O is the index returned by \<^verbatim>\<open>get_hard_move\<close>, whether X or the
  computer makes the first move, the winner is never X: a finished game is won by O or
  drawn. The playout never stalls either: on O's turn in a running game
  \<^verbatim>\<open>get_hard_move\<close> returns an index, and that index is a valid move.
\<close>

theorem hard_ai_never_loses:
  assumes "hard_playout g"
  shows "winner g \<noteq> Some MX \<and>
         (game_over g \<longrightarrow> winner g = Some MO \<or> winner g = None) \<and>
         (\<not> game_over g \<and> current_player g = MO \<longrightarrow>
            (\<exists>q. get_hard_move (board g) = Inr (Some q) \<and> is_valid_move g (int q)))"
proof -
  from assms have inv: "hp_inv g" by (rule hard_playout_inv [OF empty_board_safe empty_board_safe_o])
  then have w: "winner g \<noteq> Some MX" by (simp add: hp_inv_def)
  have t: "winner g = Some MO \<or> winner g = None"
  proof (cases "winner g")
    case None
    then show ?thesis by simp
  next
    case (Some m)
    with w show ?thesis by (cases m) auto
  qed
  have "\<exists>q. get_hard_move (board g) = Inr (Some q) \<and> is_valid_move g (int q)"
    if ng: "\<not> game_over g" and cp: "current_player g = MO"
  proof -
    from hard_move_safe(1) [OF inv ng cp] obtain q where q: "get_hard_move (board g) = Inr (Some q)" ..
    from hard_move_safe(2) [OF inv ng cp q] have "q \<in> set (empty_cells (board g))" ..
    with ng have "is_valid_move g (int q)" by (rule empty_cells_valid)
    with q show ?thesis by blast
  qed
  with w t show ?thesis by blast
qed

theorem hard_ai_never_loses_witness:
  "hard_playout (play reset [4, 0, 8, 2, 1, 7, 3, 5, 6]) \<and>
   get_hard_move (board (play reset [4])) = Inr (Some 0) \<and>
   get_hard_move (board (play reset [4, 0, 8])) = Inr (Some 2) \<and>
   get_hard_move (board (play reset [4, 0, 8, 2, 1])) = Inr (Some 7) \<and>
   get_hard_move (board (play reset [4, 0, 8, 2, 1, 7, 3])) = Inr (Some 5) \<and>
   game_over (play reset [4, 0, 8, 2, 1, 7, 3, 5, 6]) \<and>
   winner (play reset [4, 0, 8, 2, 1, 7, 3, 5, 6]) = None"
proof -
  have p0: "hard_playout (play reset [])" by (simp add: hp_reset)
  have x0: "current_player (play reset []) = MX" "is_valid_move (play reset []) 4"
    by code_simp+
  have p1: "hard_playout (play reset [4])"
    using hard_playout_x [OF p0 x0] by simp
  have o1: "current_player (play reset [4]) = MO" "\<not> game_over (play reset [4])"
    by code_simp+
  have b1: "board (play reset [4]) = [None, None, None, None, Some MX, None, None, None, None]"
    by code_simp
  have r1: "get_hard_move (board (play reset [4])) = Inr (Some 0)"
    by (simp only: b1 reply_after_4)
  have p2: "hard_playout (play reset [4, 0])"
    using hard_playout_o [OF p1 o1 r1] by simp
  have x2: "current_player (play reset [4, 0]) = MX" "is_valid_move (play reset [4, 0]) 8"
    by code_simp+
  have p3: "hard_playout (play reset [4, 0, 8])"
    using hard_playout_x [OF p2 x2] by simp
  have o3: "current_player (play reset [4, 0, 8]) = MO" "\<not> game_over (play reset [4, 0, 8])"
    by code_simp+
  have b3: "board (play reset [4, 0, 8]) = [Some MO, None, None, None, Some MX, None, None, None, Some MX]"
    by code_simp
  have r3: "get_hard_move (board (play reset [4, 0, 8])) = Inr (Some 2)"
    by (simp only: b3 reply_after_4_0_8)
  have p4: "hard_playout (play reset [4, 0, 8, 2])"
    using hard_playout_o [OF p3 o3 r3] by simp
  have x4: "current_player (play reset [4, 0, 8, 2]) = MX" "is_valid_move (play reset [4, 0, 8, 2]) 1"
    by code_simp+
  have p5: "hard_playout (play reset [4, 0, 8, 2, 1])"
    using hard_playout_x [OF p4 x4] by simp
  have o5: "current_player (play reset [4, 0, 8, 2, 1]) = MO" "\<not> game_over (play reset [4, 0, 8, 2, 1])"
    by code_simp+
  have b5: "board (play reset [4, 0, 8, 2, 1]) = [Some MO, Some MX, Some MO, None, Some MX, None, None, None, Some MX]"
    by code_simp
  have r5: "get_hard_move (board (play reset [4, 0, 8, 2, 1])) = Inr (Some 7)"
    by (simp only: b5 reply_after_4_0_8_2_1)
  have p6: "hard_playout (play reset [4, 0, 8, 2, 1, 7])"
    using hard_playout_o [OF p5 o5 r5] by simp
  have x6: "current_player (play reset [4, 0, 8, 2, 1, 7]) = MX" "is_valid_move (play reset [4, 0, 8, 2, 1, 7]) 3"
    by code_simp+
  have p7: "hard_playout (play reset [4, 0, 8, 2, 1, 7, 3])"
    using hard_playout_x [OF p6 x6] by simp
  have o7: "current_player (play reset [4, 0, 8, 2, 1, 7, 3]) = MO" "\<not> game_over (play reset [4, 0, 8, 2, 1, 7, 3])"
    by code_simp+
  have b7: "board (play reset [4, 0, 8, 2, 1, 7, 3]) = [Some MO, Some MX, Some MO, Some MX, Some MX, None, None, Some MO, Some MX]"
    by code_simp
  have r7: "get_hard_move (board (play reset [4, 0, 8, 2, 1, 7, 3])) = Inr (Some 5)"
    by (simp only: b7 reply_after_4_0_8_2_1_7_3)
  have p8: "hard_playout (play reset [4, 0, 8, 2, 1, 7, 3, 5])"
    using hard_playout_o [OF p7 o7 r7] by simp
  have x8: "current_player (play reset [4, 0, 8, 2, 1, 7, 3, 5]) = MX" "is_valid_move (play reset [4, 0, 8, 2, 1, 7, 3, 5]) 6"
    by code_simp+
  have p9: "hard_playout (play reset [4, 0, 8, 2, 1, 7, 3, 5, 6])"
    using hard_playout_x [OF p8 x8] by simp
  have fin: "game_over (play reset [4, 0, 8, 2, 1, 7, 3, 5, 6])"
    "winner (play reset [4, 0, 8, 2, 1, 7, 3, 5, 6]) = None"
    by code_simp+
  from hard_ai_never_loses [OF p9] p9 r1 r3 r5 r7 fin show ?thesis by simp
qed

section \<open>Hard AI, No-Draw game\<close>

text \<open>
  C7. On the board \<^verbatim>\<open>[None, None, 'X', 'O', 'O', None, 'X', None, 'X']\<close> with
  \<^verbatim>\<open>x_moves = [2, 6, 8]\<close> and \<^verbatim>\<open>o_moves = [3, 4]\<close>, \<^verbatim>\<open>get_hard_move_no_draw\<close> returns 5
  from the fast path: the candidates are 0, 1, 5, 7 in that order, 5 is the first that
  completes a line, the list is as it was, and the transposition table is still empty,
  so the recursive search has not run.
\<close>

theorem hard_no_draw_fast_path:
  "get_hard_move_no_draw [None, None, Some MX, Some MO, Some MO, None, Some MX, None, Some MX]
      [2, 6, 8] [3, 4]
   = Inr (Some 5, [None, None, Some MX, Some MO, Some MO, None, Some MX, None, Some MX], Map.empty)"
proof -
  have a: "get_available_moves_no_draw
      [None, None, Some MX, Some MO, Some MO, None, Some MX, None, Some MX] MO [3, 4] = [0, 1, 5, 7]"
    by code_simp
  have f: "fast_path [0, 1, 5, 7]
      [None, None, Some MX, Some MO, Some MO, None, Some MX, None, Some MX] [3, 4]
    = Inr (Some 5, [None, None, Some MX, Some MO, Some MO, None, Some MX, None, Some MX])"
    by code_simp
  show ?thesis unfolding get_hard_move_no_draw_def Let_def a f by simp
qed

text \<open>
  When no candidate wins at once, a move that the function returns is the first
  candidate of the ordered list, whatever the search computes: \<^verbatim>\<open>best_move\<close> is set to
  \<^verbatim>\<open>available[0]\<close> before the loop and the loop never assigns it.
\<close>

lemma hard_no_draw_first_candidate:
  assumes "get_hard_move_no_draw b x_ms o_ms = Inr (Some mv, b', tp')"
    "map_sum id fst (fast_path (get_available_moves_no_draw b MO o_ms) b o_ms) = Inr None"
  shows "mv = get_available_moves_no_draw b MO o_ms ! 0"
  using assms
  by (cases "fast_path (get_available_moves_no_draw b MO o_ms) b o_ms")
     (auto simp: get_hard_move_no_draw_def Let_def split: prod.splits sum.splits if_splits option.splits)

text \<open>
  C1 says that \<^verbatim>\<open>get_hard_move_no_draw\<close> returns the candidate with the maximal
  \<^verbatim>\<open>minimax_no_draw\<close> score. The code does not: after the engine moves 1, 8, 2 it is O's
  turn on \<^verbatim>\<open>[None, 'X', 'X', None, None, None, None, None, 'O']\<close>. The candidates are
  4, 0, 6, 3, 5, 7, none wins at once, and the depth is 5. Candidate 4 scores -10 (X
  completes the top row at 0 next) and candidate 0 scores 0, yet the function returns 4.
\<close>

theorem hard_no_draw_not_argmax:
  "nd_all_valid nd_reset [1, 8, 2] \<and>
   board (nd_play nd_reset [1, 8, 2]) = [None, Some MX, Some MX, None, None, None, None, None, Some MO] \<and>
   x_moves (nd_play nd_reset [1, 8, 2]) = [1, 2] \<and>
   o_moves (nd_play nd_reset [1, 8, 2]) = [8] \<and>
   current_player (nd_play nd_reset [1, 8, 2]) = MO \<and>
   get_available_moves_no_draw [None, Some MX, Some MX, None, None, None, None, None, Some MO] MO [8]
     = [4, 0, 6, 3, 5, 7] \<and>
   map_sum id fst (fast_path [4, 0, 6, 3, 5, 7]
         [None, Some MX, Some MX, None, None, None, None, None, Some MO] [8]) = Inr None \<and>
   get_dynamic_depth [None, Some MX, Some MX, None, None, None, None, None, Some MO] = 5 \<and>
   map_sum id fst (candidate_score [None, Some MX, Some MX, None, None, None, None, None, Some MO]
          Map.empty [1, 2] [8] 5 MInf PInf 4) = Inr (Fin (- 10)) \<and>
   map_sum id fst (candidate_score [None, Some MX, Some MX, None, None, None, None, None, Some MO]
          Map.empty [1, 2] [8] 5 MInf PInf 0) = Inr (Fin 0) \<and>
   map_sum id fst (get_hard_move_no_draw
      [None, Some MX, Some MX, None, None, None, None, None, Some MO] [1, 2] [8]) = Inr (Some 4) \<and>
   check_winner ([None, Some MX, Some MX, None, Some MO, None, None, None, Some MO][0 := Some MX]) MX"
  by code_simp

text \<open>
  What the other loops do with the list. On a snapshot whose histories list cells that
  hold their player's mark, a simulated placement raises nothing and, followed by its
  undo, gives the list back; so the fast path returns with the list as it was, and so
  does every call of \<^verbatim>\<open>minimax_no_draw\<close>.
\<close>

lemma place_mark_Inr:
  assumes "pos < length b" "3 \<le> length ms \<longrightarrow> ms ! 0 < length b"
  shows "place_mark b pl pos ms =
     Inr (if 3 \<le> length ms then Some (ms ! 0) else None,
          (if 3 \<le> length ms then b[ms ! 0 := None] else b)[pos := Some pl],
          (if 3 \<le> length ms then tl ms else ms) @ [pos])"
  using assms by (auto simp: place_mark_def MAX_MARKS_def)

lemma place_then_undo:
  assumes "pos < length b" "b ! pos = None \<or> (3 \<le> length ms \<and> pos = ms ! 0)"
    "3 \<le> length ms \<longrightarrow> ms ! 0 < length b \<and> b ! (ms ! 0) = Some pl"
  shows "\<exists>removed b1 nm. place_mark b pl pos ms = Inr (removed, b1, nm) \<and>
           undo_mark b1 pl pos removed = b"
proof -
  have "undo_mark ((if 3 \<le> length ms then b[ms ! 0 := None] else b)[pos := Some pl]) pl pos
          (if 3 \<le> length ms then Some (ms ! 0) else None) = b"
    using assms by (auto simp: undo_mark_def list_eq_iff_nth_eq nth_list_update)
  with place_mark_Inr [of pos b ms pl] assms show ?thesis by auto
qed

lemma hist_ok_oldest:
  "hist_ok b pl ms \<Longrightarrow> 3 \<le> length ms \<longrightarrow> ms ! 0 < length b \<and> b ! (ms ! 0) = Some pl"
  by (cases ms) (auto simp: hist_ok_def)

lemma place_mark_ok:
  assumes "hist_ok b pl ms" "cand_ok b ms pos" "hist_ok b pl' oms" "pl' \<noteq> pl"
  shows "\<exists>removed b1 nm. place_mark b pl pos ms = Inr (removed, b1, nm) \<and>
           undo_mark b1 pl pos removed = b \<and> hist_ok b1 pl nm \<and> hist_ok b1 pl' oms"
proof -
  let ?b1 = "(if 3 \<le> length ms then b[ms ! 0 := None] else b)[pos := Some pl]"
  let ?nm = "(if 3 \<le> length ms then tl ms else ms) @ [pos]"
  note old = hist_ok_oldest [OF assms(1)]
  from assms(2) have p: "pos < length b" "b ! pos = None \<or> (3 \<le> length ms \<and> pos = ms ! 0)"
    by (auto simp: cand_ok_def)
  have pm: "place_mark b pl pos ms = Inr (if 3 \<le> length ms then Some (ms ! 0) else None, ?b1, ?nm)"
    using place_mark_Inr [of pos b ms pl] p old by blast
  have un: "undo_mark ?b1 pl pos (if 3 \<le> length ms then Some (ms ! 0) else None) = b"
    using place_then_undo [OF p old] pm by auto
  have h1: "hist_ok ?b1 pl ?nm"
  proof (cases "3 \<le> length ms")
    case False
    with assms(1) p show ?thesis by (auto simp: hist_ok_def nth_list_update)
  next
    case True
    then obtain a rest where "ms = a # rest" by (cases ms) auto
    with assms(1) p True show ?thesis by (auto simp: hist_ok_def nth_list_update)
  qed
  have h2: "hist_ok ?b1 pl' oms"
  proof (cases "3 \<le> length ms")
    case False
    with assms p show ?thesis by (auto simp: hist_ok_def nth_list_update)
  next
    case True
    then obtain a rest where "ms = a # rest" by (cases ms) auto
    with assms p True show ?thesis by (auto simp: hist_ok_def nth_list_update)
  qed
  from pm un h1 h2 show ?thesis by blast
qed

lemma fast_path_restores:
  assumes "\<forall>pos \<in> set ps. pos < length b \<and> (b ! pos = None \<or> (3 \<le> length o_ms \<and> pos = o_ms ! 0))"
    "3 \<le> length o_ms \<longrightarrow> o_ms ! 0 < length b \<and> b ! (o_ms ! 0) = Some MO"
  shows "\<exists>found. fast_path ps b o_ms = Inr (found, b)"
  using assms(1)
proof (induction ps)
  case Nil
  then show ?case by simp
next
  case (Cons pos ps)
  from Cons.prems have "pos < length b" "b ! pos = None \<or> (3 \<le> length o_ms \<and> pos = o_ms ! 0)"
    by auto
  from place_then_undo [OF this assms(2)] Cons show ?case
    by (auto simp: Let_def)
qed

lemma set_get_available_moves_no_draw:
  "set (get_available_moves_no_draw b pl ms) =
     set (empty_cells b) \<union> (if length ms \<ge> 3 then {ms ! 0} else {})"
  by (simp add: get_available_moves_no_draw_def order_moves_def set_available_cells)

lemma hard_no_draw_fast_path_restores:
  assumes "3 \<le> length o_ms \<longrightarrow> o_ms ! 0 < length b \<and> b ! (o_ms ! 0) = Some MO"
  shows "\<exists>found. fast_path (get_available_moves_no_draw b MO o_ms) b o_ms = Inr (found, b)"
  by (rule fast_path_restores [OF _ assms])
     (use assms in \<open>auto simp: set_get_available_moves_no_draw empty_cells_def split: if_splits\<close>)

lemma available_cand_ok:
  assumes "hist_ok b pl ms" "pos \<in> set (get_available_moves_no_draw b pl' ms)"
  shows "cand_ok b ms pos"
  using assms hist_ok_oldest [OF assms(1)]
  by (auto simp: set_get_available_moves_no_draw cand_ok_def empty_cells_def split: if_splits)



lemma search_restores:
  "hist_ok b MX x_ms \<Longrightarrow> hist_ok b MO o_ms \<Longrightarrow>
     \<exists>score tp'. minimax_no_draw b tp depth is_maximizing x_ms o_ms max_depth alpha beta
        = Inr (score, b, tp')"
  "hist_ok b MX x_ms \<Longrightarrow> hist_ok b MO o_ms \<Longrightarrow> \<forall>pos \<in> set ps. cand_ok b o_ms pos \<Longrightarrow>
     \<exists>score tp'. max_loop ps b tp depth x_ms o_ms max_depth alpha beta best = Inr (score, b, tp')"
  "hist_ok b MX x_ms \<Longrightarrow> hist_ok b MO o_ms \<Longrightarrow> \<forall>pos \<in> set ps. cand_ok b x_ms pos \<Longrightarrow>
     \<exists>score tp'. min_loop ps b tp depth x_ms o_ms max_depth alpha beta best = Inr (score, b, tp')"
proof (induction b tp depth is_maximizing x_ms o_ms max_depth alpha beta
    and ps b tp depth x_ms o_ms max_depth alpha beta best
    and ps b tp depth x_ms o_ms max_depth alpha beta best
    rule: minimax_no_draw_max_loop_min_loop.induct)
  case (1 b tp depth is_maximizing x_ms o_ms max_depth alpha beta)
  show ?case
  proof (cases "check_winner b MO \<or> check_winner b MX \<or> max_depth \<le> depth \<or>
      tp (board_key b x_ms o_ms is_maximizing) \<noteq> None \<or>
      get_available_moves_no_draw b (if is_maximizing then MO else MX)
        (if is_maximizing then o_ms else x_ms) = []")
    case True
    then show ?thesis
      by (subst minimax_no_draw.simps) (auto simp: Let_def split: option.splits)
  next
    case False
    show ?thesis
    proof (cases is_maximizing)
      case True
      have c: "\<forall>pos \<in> set (get_available_moves_no_draw b MO o_ms). cand_ok b o_ms pos"
        using available_cand_ok [OF "1.prems"(2)] by blast
      have "\<exists>score tp'. max_loop (get_available_moves_no_draw b MO o_ms) b tp depth x_ms o_ms
          max_depth alpha beta MInf = Inr (score, b, tp')"
        using "1.IH"(1) [OF _ _ _ refl _ refl refl refl _ True "1.prems" ] False True c by auto
      with False True show ?thesis
        by (subst minimax_no_draw.simps) (auto simp: Let_def split: option.splits)
    next
      case f: False
      have c: "\<forall>pos \<in> set (get_available_moves_no_draw b MX x_ms). cand_ok b x_ms pos"
        using available_cand_ok [OF "1.prems"(1)] by blast
      have "\<exists>score tp'. min_loop (get_available_moves_no_draw b MX x_ms) b tp depth x_ms o_ms
          max_depth alpha beta PInf = Inr (score, b, tp')"
        using "1.IH"(2) [OF _ _ _ refl _ refl refl refl _ f "1.prems"] False f c by auto
      with False f show ?thesis
        by (subst minimax_no_draw.simps) (auto simp: Let_def split: option.splits)
    qed
  qed
next
  case (2 b tp depth x_ms o_ms max_depth alpha beta best)
  then show ?case by simp
next
  case (3 pos rest b tp depth x_ms o_ms max_depth alpha beta best)
  from "3.prems" have co: "cand_ok b o_ms pos" and cr: "\<forall>p \<in> set rest. cand_ok b o_ms p" by auto
  from place_mark_ok [OF "3.prems"(2) co "3.prems"(1)]
  obtain removed b1 nm where pm: "place_mark b MO pos o_ms = Inr (removed, b1, nm)"
    and un: "undo_mark b1 MO pos removed = b" and ho: "hist_ok b1 MO nm"
    and hx: "hist_ok b1 MX x_ms" by auto
  obtain score tp2 where sc: "(if check_winner b1 MO then Inr (Fin (10 - depth), b1, tp)
      else minimax_no_draw b1 tp (depth + 1) False x_ms nm max_depth alpha beta)
      = Inr (score, b1, tp2)"
  proof (cases "check_winner b1 MO")
    case True
    with that show ?thesis by simp
  next
    case False
    from "3.IH"(1) [OF pm refl refl False hx ho] False that show ?thesis by auto
  qed
  show ?case
  proof (cases "beta \<le> max alpha (max best score)")
    case True
    with pm sc un show ?thesis by (simp add: Let_def)
  next
    case False
    from "3.IH"(2) [OF pm refl refl sc refl refl refl refl refl False]
      "3.prems"(1,2) cr un
    have "\<exists>s tp'. max_loop rest b tp2 depth x_ms o_ms max_depth (max alpha (max best score))
        beta (max best score) = Inr (s, b, tp')" by simp
    with False pm sc un show ?thesis by (simp add: Let_def)
  qed
next
  case (4 b tp depth x_ms o_ms max_depth alpha beta best)
  then show ?case by simp
next
  case (5 pos rest b tp depth x_ms o_ms max_depth alpha beta best)
  from "5.prems" have co: "cand_ok b x_ms pos" and cr: "\<forall>p \<in> set rest. cand_ok b x_ms p" by auto
  from place_mark_ok [OF "5.prems"(1) co "5.prems"(2)]
  obtain removed b1 nm where pm: "place_mark b MX pos x_ms = Inr (removed, b1, nm)"
    and un: "undo_mark b1 MX pos removed = b" and hx: "hist_ok b1 MX nm"
    and ho: "hist_ok b1 MO o_ms" by auto
  obtain score tp2 where sc: "(if check_winner b1 MX then Inr (Fin (depth - 10), b1, tp)
      else minimax_no_draw b1 tp (depth + 1) True nm o_ms max_depth alpha beta)
      = Inr (score, b1, tp2)"
  proof (cases "check_winner b1 MX")
    case True
    with that show ?thesis by simp
  next
    case False
    from "5.IH"(1) [OF pm refl refl False hx ho] False that show ?thesis by auto
  qed
  show ?case
  proof (cases "min beta (min best score) \<le> alpha")
    case True
    with pm sc un show ?thesis by (simp add: Let_def)
  next
    case False
    from "5.IH"(2) [OF pm refl refl sc refl refl refl refl refl False]
      "5.prems"(1,2) cr un
    have "\<exists>s tp'. min_loop rest b tp2 depth x_ms o_ms max_depth alpha
        (min beta (min best score)) (min best score) = Inr (s, b, tp')" by simp
    with False pm sc un show ?thesis by (simp add: Let_def)
  qed
qed

text \<open>
  When O's history holds 3 entries or more and its oldest entry is not a cell of the
  list, the first simulation of the fast path raises.
\<close>

lemma hard_no_draw_index_error:
  assumes "9 \<le> length b" "3 \<le> length o_ms" "length b \<le> o_ms ! 0"
  shows "get_hard_move_no_draw b x_ms o_ms = Inl IndexError"
proof -
  have "o_ms ! 0 \<in> set (get_available_moves_no_draw b MO o_ms)"
    using assms(2) by (simp add: set_get_available_moves_no_draw)
  then obtain pos rest where a: "get_available_moves_no_draw b MO o_ms = pos # rest"
    by (cases "get_available_moves_no_draw b MO o_ms") auto
  have "place_mark b MO pos o_ms = Inl IndexError"
    using assms by (simp add: place_mark_def MAX_MARKS_def)
  with a assms(1) show ?thesis
    by (simp add: get_hard_move_no_draw_def)
qed

text \<open>
  C2 says that no AI function changes the list it is handed. The main loop of
  \<^verbatim>\<open>get_hard_move_no_draw\<close> places its trial marks and never takes them back (the fast
  path and \<^verbatim>\<open>minimax_no_draw\<close> do): on the same input the caller's list ends with O on
  all six candidate cells.
\<close>

theorem hard_no_draw_board_overwritten:
  "map_sum id (\<lambda>r. fst (snd r)) (get_hard_move_no_draw
      [None, Some MX, Some MX, None, None, None, None, None, Some MO] [1, 2] [8])
   = Inr [Some MO, Some MX, Some MX, Some MO, Some MO, Some MO, Some MO, Some MO, Some MO]"
  by code_simp

end
